theory Spec2Isabelle
  imports Main
begin

section \<open>Values, keys and property access\<close>

text \<open>
  The state tree holds plain data. A path segment is a number or a string
  (\<open>Path = ReadonlyArray<string | number>\<close>); numbers are taken to be
  non-negative integers. \<open>NoneSym\<close> is the exported symbol \<open>none\<close>,
  \<open>PromiseLike\<close> an object accepted by \<open>configuration.promiseDetector\<close>
  and \<open>StateValue\<close> a value carrying \<open>SelfMethodsID\<close> (a value read out of
  another state). Arrays may have holes (\<open>None\<close>); objects list their own
  properties in the order \<open>Object.keys\<close> reports them. A plain object
  inherits the members of \<open>Object.prototype\<close>: \<open>Builtin n\<close> is the member
  inherited under the name \<open>n\<close> (a function, and for \<open>__proto__\<close> the
  prototype itself).

  Scope of the embedding: values form a tree (no object is reachable twice),
  the prototypes are the ones of the language and are never changed, numbers are
  integers or \<open>NaN\<close> in the range where a double is exact, and a property
  name counts as numeric only in canonical decimal form. Where the program
  goes beyond that, the answer is \<open>Unmodelled\<close>, which is no exception of the
  program: for a key of an array that is not an array index, for a property of a
  primitive that is neither an index nor the length of a string, for any
  property of a \<open>PromiseLike\<close>, \<open>StateValue\<close> or \<open>Builtin\<close>, for a number
  key or number from \<open>10^21\<close> on, and for an assignment that would change a
  prototype.
\<close>

datatype key = KNum nat | KStr string

type_synonym path = "key list"

datatype jsval =
    Undefined
  | Null
  | NoneSym
  | Bool bool
  | Num int
  | NaN
  | Str string
  | PromiseLike nat
  | StateValue nat
  | Builtin string
  | Arr "jsval option list"
  | Obj "(string \<times> jsval) list"

datatype ErrorId =
    SetStateWhenDestroyed
  | SetStateWhenPromised
  | SetStateNestedToPromised
  | GetStateWhenPromised
  | SetStateToValueFromState

datatype error =
    StateInvalidUsageError path ErrorId
  | TypeError
  | Thrown jsval
  | Unmodelled

definition digit_char :: "nat \<Rightarrow> char" where
  "digit_char d = ''0123456789'' ! d"

function dec :: "nat \<Rightarrow> string" where
  "dec n = (if n < 10 then [digit_char n] else dec (n div 10) @ [digit_char (n mod 10)])"
  by pat_completeness auto
termination
  by (relation "measure id") auto

declare dec.simps [simp del]

fun position :: "'a \<Rightarrow> 'a list \<Rightarrow> nat option" where
  "position x [] = None"
| "position x (y # ys) = (if x = y then Some 0 else map_option Suc (position x ys))"

definition digit_val :: "char \<Rightarrow> nat option" where
  "digit_val c = position c ''0123456789''"

fun parse_digits :: "nat \<Rightarrow> string \<Rightarrow> nat option" where
  "parse_digits acc [] = Some acc"
| "parse_digits acc (c # cs) =
     (case digit_val c of None \<Rightarrow> None | Some d \<Rightarrow> parse_digits (10 * acc + d) cs)"

text \<open>\<open>Number(name)\<close> for a property name: the number whose canonical decimal
  form the name is, \<open>None\<close> (\<open>NaN\<close>) for every other name.\<close>

definition to_number :: "string \<Rightarrow> nat option" where
  "to_number s =
     (if s = [] then None
      else case parse_digits 0 s of
             None \<Rightarrow> None
           | Some n \<Rightarrow> if dec n = s then Some n else None)"

text \<open>The order of the default \<open>sort\<close> and of \<open><\<close> on strings: by
  code units.\<close>

fun str_le :: "string \<Rightarrow> string \<Rightarrow> bool" where
  "str_le [] t = True"
| "str_le (a # s) [] = False"
| "str_le (a # s) (b # t) =
     ((of_char a :: nat) < of_char b \<or> (a = b \<and> str_le s t))"

text \<open>The property name a key denotes. A number key from \<open>10^21\<close> on (a
  numeral of more than 21 digits) has a name in exponent form, which is left
  out.\<close>

fun prop_name :: "key \<Rightarrow> string" where
  "prop_name (KNum n) = dec n"
| "prop_name (KStr s) = s"

fun key_modelled :: "key \<Rightarrow> bool" where
  "key_modelled (KNum n) = (length (dec n) \<le> 21)"
| "key_modelled (KStr s) = True"

text \<open>A name is an array index when it is a canonical numeral below
  \<open>2^32 - 1\<close>, that is at most \<open>4294967294\<close>; \<open>array_index\<close> is the
  index a key denotes.\<close>

definition is_index_name :: "string \<Rightarrow> bool" where
  "is_index_name s =
     (to_number s \<noteq> None \<and>
      (length s < 10 \<or> (length s = 10 \<and> str_le s ''4294967294'')))"

definition array_index :: "key \<Rightarrow> nat option" where
  "array_index k = (if is_index_name (prop_name k) then to_number (prop_name k) else None)"

fun is_number_key :: "key \<Rightarrow> bool" where
  "is_number_key (KNum n) = True"
| "is_number_key (KStr s) = False"

fun isArray :: "jsval \<Rightarrow> bool" where
  "isArray (Arr xs) = True"
| "isArray v = False"

text \<open>Arrays and plain objects, the values that hold the tree together.\<close>

fun is_container :: "jsval \<Rightarrow> bool" where
  "is_container (Arr xs) = True"
| "is_container (Obj kvs) = True"
| "is_container v = False"

text \<open>\<open>Object(v) === v\<close>: the value is an object, not a primitive.\<close>

fun is_object :: "jsval \<Rightarrow> bool" where
  "is_object (Arr xs) = True"
| "is_object (Obj kvs) = True"
| "is_object (PromiseLike i) = True"
| "is_object (StateValue i) = True"
| "is_object (Builtin n) = True"
| "is_object v = False"

fun promiseDetector :: "jsval \<Rightarrow> bool" where
  "promiseDetector (PromiseLike i) = True"
| "promiseDetector v = False"

fun truthy :: "jsval \<Rightarrow> bool" where
  "truthy Undefined = False"
| "truthy Null = False"
| "truthy (Bool b) = b"
| "truthy (Num n) = (n \<noteq> 0)"
| "truthy NaN = False"
| "truthy (Str s) = (s \<noteq> [])"
| "truthy v = True"

text \<open>Own properties of an object, in \<open>Object.keys\<close> order: array indices
  ascending, then the other names in insertion order.\<close>

definition index_of_name :: "string \<Rightarrow> nat option" where
  "index_of_name s = (if is_index_name s then to_number s else None)"

fun goes_before :: "string \<Rightarrow> string \<Rightarrow> bool" where
  "goes_before n k =
     (case index_of_name n of
        None \<Rightarrow> False
      | Some i \<Rightarrow> (case index_of_name k of None \<Rightarrow> True | Some j \<Rightarrow> i < j))"

fun obj_insert :: "string \<Rightarrow> 'v \<Rightarrow> (string \<times> 'v) list \<Rightarrow> (string \<times> 'v) list" where
  "obj_insert n v [] = [(n, v)]"
| "obj_insert n v ((k, x) # kvs) =
     (if goes_before n k then (n, v) # (k, x) # kvs else (k, x) # obj_insert n v kvs)"

fun obj_replace :: "string \<Rightarrow> 'v \<Rightarrow> (string \<times> 'v) list \<Rightarrow> (string \<times> 'v) list" where
  "obj_replace n v [] = []"
| "obj_replace n v ((k, x) # kvs) =
     (if k = n then (k, v) # kvs else (k, x) # obj_replace n v kvs)"

definition obj_has :: "(string \<times> 'v) list \<Rightarrow> string \<Rightarrow> bool" where
  "obj_has kvs n = (map_of kvs n \<noteq> None)"

definition obj_put :: "(string \<times> 'v) list \<Rightarrow> string \<Rightarrow> 'v \<Rightarrow> (string \<times> 'v) list" where
  "obj_put kvs n v = (if obj_has kvs n then obj_replace n v kvs else obj_insert n v kvs)"

definition obj_delete :: "(string \<times> 'v) list \<Rightarrow> string \<Rightarrow> (string \<times> 'v) list" where
  "obj_delete kvs n = filter (\<lambda>kv. fst kv \<noteq> n) kvs"

text \<open>The names a plain object inherits from \<open>Object.prototype\<close>;
  \<open>__proto__\<close> is an accessor, the others are writable data properties.
  \<open>obj_in\<close> is \<open>name in object\<close>.\<close>

definition object_prototype_names :: "string list" where
  "object_prototype_names =
     [''constructor'', ''__defineGetter__'', ''__defineSetter__'', ''hasOwnProperty'',
      ''__lookupGetter__'', ''__lookupSetter__'', ''isPrototypeOf'', ''propertyIsEnumerable'',
      ''toString'', ''valueOf'', ''__proto__'', ''toLocaleString'']"

definition obj_in :: "(string \<times> 'v) list \<Rightarrow> string \<Rightarrow> bool" where
  "obj_in kvs n = (obj_has kvs n \<or> n \<in> set object_prototype_names)"

text \<open>\<open>target[p]\<close> as a read: an own property, else an inherited member,
  else \<open>undefined\<close>.\<close>

fun get_prop :: "jsval \<Rightarrow> key \<Rightarrow> error + jsval" where
  "get_prop Undefined k = Inl TypeError"
| "get_prop Null k = Inl TypeError"
| "get_prop (Arr xs) k =
     (case array_index k of
        None \<Rightarrow> Inl Unmodelled
      | Some i \<Rightarrow>
          Inr (if i < length xs
               then (case xs ! i of None \<Rightarrow> Undefined | Some v \<Rightarrow> v)
               else Undefined))"
| "get_prop (Obj kvs) k =
     (if \<not> key_modelled k then Inl Unmodelled
      else case map_of kvs (prop_name k) of
             Some v \<Rightarrow> Inr v
           | None \<Rightarrow>
               Inr (if prop_name k \<in> set object_prototype_names
                    then Builtin (prop_name k) else Undefined))"
| "get_prop (Str s) k =
     (case array_index k of
        Some i \<Rightarrow> Inr (if i < length s then Str [s ! i] else Undefined)
      | None \<Rightarrow>
          if prop_name k = ''length'' then Inr (Num (int (length s))) else Inl Unmodelled)"
| "get_prop (PromiseLike i) k = Inl Unmodelled"
| "get_prop (StateValue i) k = Inl Unmodelled"
| "get_prop (Builtin n) k = Inl Unmodelled"
| "get_prop v k =
     (case array_index k of None \<Rightarrow> Inl Unmodelled | Some i \<Rightarrow> Inr Undefined)"

text \<open>\<open>p in target\<close>, own or inherited: a \<open>TypeError\<close> when the target
  is no object.\<close>

fun has_prop :: "key \<Rightarrow> jsval \<Rightarrow> error + bool" where
  "has_prop k (Arr xs) =
     (case array_index k of
        None \<Rightarrow> Inl Unmodelled
      | Some i \<Rightarrow> Inr (i < length xs \<and> xs ! i \<noteq> None))"
| "has_prop k (Obj kvs) =
     (if \<not> key_modelled k then Inl Unmodelled else Inr (obj_in kvs (prop_name k)))"
| "has_prop k (PromiseLike i) = Inl Unmodelled"
| "has_prop k (StateValue i) = Inl Unmodelled"
| "has_prop k (Builtin n) = Inl Unmodelled"
| "has_prop k v = Inl TypeError"

text \<open>\<open>target[p] = value\<close> on an array or an object. An index past the end
  extends the array with holes. On an object an own property is replaced; the
  inherited setter of \<open>__proto__\<close> ignores a primitive and changes the
  prototype otherwise; any other name becomes an own property.\<close>

fun set_prop :: "jsval \<Rightarrow> key \<Rightarrow> jsval \<Rightarrow> error + jsval" where
  "set_prop (Arr xs) k v =
     (case array_index k of
        None \<Rightarrow> Inl Unmodelled
      | Some i \<Rightarrow>
          Inr (Arr (if i < length xs then xs[i := Some v]
                    else xs @ replicate (i - length xs) None @ [Some v])))"
| "set_prop (Obj kvs) k v =
     (if \<not> key_modelled k then Inl Unmodelled
      else if obj_has kvs (prop_name k) then Inr (Obj (obj_replace (prop_name k) v kvs))
      else if prop_name k = ''__proto__''
      then if is_object v \<or> v = Null then Inl Unmodelled else Inr (Obj kvs)
      else Inr (Obj (obj_insert (prop_name k) v kvs)))"
| "set_prop t k v = Inl Unmodelled"

text \<open>\<open>target.splice(p, 1)\<close> and \<open>delete target[p]\<close>.\<close>

fun splice1 :: "jsval \<Rightarrow> nat \<Rightarrow> jsval" where
  "splice1 (Arr xs) i = Arr (take i xs @ drop (Suc i) xs)"
| "splice1 t i = t"

fun delete_prop :: "jsval \<Rightarrow> key \<Rightarrow> jsval" where
  "delete_prop (Arr xs) k =
     (case array_index k of
        None \<Rightarrow> Arr xs
      | Some i \<Rightarrow> Arr (if i < length xs then xs[i := None] else xs))"
| "delete_prop (Obj kvs) k = Obj (obj_delete kvs (prop_name k))"
| "delete_prop t k = t"

section \<open>The store\<close>

datatype action = Ins | Upd | Del

record SetActionDescriptor =
  path :: path
  actions :: "(string \<times> action) list option"

text \<open>The argument of a plugin's \<open>onSet\<close> callback; a deleted field is
  \<open>None\<close>. \<open>merged\<close> is never deleted (it may hold \<open>undefined\<close>).\<close>

record OnSetArgument =
  arg_path :: path
  arg_state :: "jsval option"
  arg_value :: "jsval option"
  arg_previous :: "jsval option"
  arg_merged :: jsval

text \<open>Class \<open>Promised\<close>. \<open>pid\<close> is the identity of the object (compared by
  \<open>this.promised === promised\<close>), \<open>promise\<close> the constructor's first
  argument, \<open>resolver\<close> whether the field \<open>resolver\<close> is defined.\<close>

record Promised =
  pid :: nat
  promise :: "jsval option"
  fullfilled :: bool
  p_error :: "jsval option"
  resolver :: bool

text \<open>What the store calls, in order: plugin callbacks, the resolver of a
  \<open>Promised\<close>, \<open>onSet\<close> of the subscriber at a position of
  \<open>_subscribers\<close>, and the collected rerender actions.\<close>

datatype event =
    OnSet nat OnSetArgument
  | OnDestroy nat "jsval option"
  | Resolve nat jsval
  | Notify nat SetActionDescriptor
  | Rerender nat

text \<open>Class \<open>Store\<close>. Callbacks are identified by numbers; the three sets
  are lists in insertion order, and \<open>s_plugins\<close> holds the keys of
  \<open>_plugins\<close>. \<open>s_next_pid\<close> numbers the \<open>Promised\<close>
  objects created so far and \<open>s_trace\<close> records the calls made.\<close>

record 's Store =
  s_edition :: int
  s_value :: jsval
  s_promised :: "Promised option"
  s_subscribers :: "'s list"
  s_setSubscribers :: "nat list"
  s_destroySubscribers :: "nat list"
  s_plugins :: "nat list"
  s_next_pid :: nat
  s_trace :: "event list"

definition DestroyedEdition :: int where
  "DestroyedEdition = - 1"

definition RootPath :: path where
  "RootPath = []"

text \<open>\<open>Set.add\<close> on a set kept in insertion order.\<close>

definition set_add :: "'a \<Rightarrow> 'a list \<Rightarrow> 'a list" where
  "set_add x xs = (if x \<in> set xs then xs else xs @ [x])"

definition createPromised :: "'s Store \<Rightarrow> jsval \<Rightarrow> Promised" where
  "createPromised s newValue =
     \<lparr> pid = s_next_pid s,
       promise = (if truthy newValue then Some newValue else None),
       fullfilled = False,
       p_error = None,
       resolver = (\<not> truthy newValue) \<rparr>"

text \<open>\<open>this._promised = this.createPromised(newValue)\<close>.\<close>

definition install_promised :: "'s Store \<Rightarrow> jsval \<Rightarrow> 's Store" where
  "install_promised s newValue =
     s\<lparr> s_promised := Some (createPromised s newValue),
        s_next_pid := Suc (s_next_pid s) \<rparr>"

definition empty_store :: "jsval \<Rightarrow> 's Store" where
  "empty_store v =
     \<lparr> s_edition = 0, s_value = v, s_promised = None, s_subscribers = [],
       s_setSubscribers = [], s_destroySubscribers = [], s_plugins = [], s_next_pid = 0, s_trace = [] \<rparr>"

definition Store_new :: "jsval \<Rightarrow> 's Store" where
  "Store_new v =
     (if is_object v \<and> promiseDetector v
      then (install_promised (empty_store v) v)\<lparr> s_value := NoneSym \<rparr>
      else if v = NoneSym then install_promised (empty_store v) Undefined
      else empty_store v)"

text \<open>\<open>path.forEach(p => { result = result[p] })\<close>, also the loop of
  \<open>set\<close> that walks to the parent of the last key.\<close>

fun walk :: "jsval \<Rightarrow> path \<Rightarrow> error + jsval" where
  "walk v [] = Inr v"
| "walk v (k # ks) = (case get_prop v k of Inl e \<Rightarrow> Inl e | Inr c \<Rightarrow> walk c ks)"

definition Store_get :: "'s Store \<Rightarrow> path \<Rightarrow> error + jsval" where
  "Store_get s p = (if s_value s = NoneSym then Inr NoneSym else walk (s_value s) p)"

definition afterSet :: "'s Store \<Rightarrow> OnSetArgument \<Rightarrow> 's Store" where
  "afterSet s params =
     (if s_edition s \<noteq> DestroyedEdition
      then s\<lparr> s_edition := s_edition s + 1,
              s_trace := s_trace s @ map (\<lambda>cb. OnSet cb params) (s_setSubscribers s) \<rparr>
      else s)"

text \<open>The object reached by \<open>ks\<close> is mutated in place: in the tree, the
  value at \<open>ks\<close> is replaced by the mutated one.\<close>

fun replace_at :: "jsval \<Rightarrow> path \<Rightarrow> jsval \<Rightarrow> jsval" where
  "replace_at r [] t = t"
| "replace_at r (k # ks) t =
     (case get_prop r k of
        Inl e \<Rightarrow> r
      | Inr c \<Rightarrow>
          if is_container c
          then (case set_prop r k (replace_at c ks t) of Inl e \<Rightarrow> r | Inr r' \<Rightarrow> r')
          else r)"

text \<open>\<open>Store.set\<close> for \<open>path.length === 0\<close>.\<close>

definition set_root ::
  "'s Store \<Rightarrow> SetActionDescriptor \<Rightarrow> jsval \<Rightarrow> jsval \<Rightarrow> error + 's Store \<times> SetActionDescriptor" where
  "set_root s ad v mergeValue =
     (let onSetArg = \<lparr> arg_path = path ad, arg_state = Some v, arg_value = Some v,
                       arg_previous = Some (s_value s), arg_merged = mergeValue \<rparr>;
          deleted = onSetArg\<lparr> arg_value := None, arg_state := None \<rparr>
      in
        if \<not> (v = NoneSym \<or> (is_object v \<and> promiseDetector v)) \<and>
           (case s_promised s of
              None \<Rightarrow> False
            | Some pr \<Rightarrow> \<not> resolver pr \<and> \<not> fullfilled pr)
        then Inl (StateInvalidUsageError (path ad) SetStateWhenPromised)
        else
          let (s1, v1, arg1) =
                (if v = NoneSym then (install_promised s Undefined, v, deleted)
                 else if is_object v \<and> promiseDetector v
                 then (install_promised s v, NoneSym, deleted)
                 else (s, v, onSetArg));
              prevValue = s_value s1;
              arg2 = (if prevValue = NoneSym then arg1\<lparr> arg_previous := None \<rparr> else arg1);
              s2 = afterSet (s1\<lparr> s_value := v1 \<rparr>) arg2;
              s3 = (case s_promised s2 of
                      None \<Rightarrow> s2
                    | Some pr \<Rightarrow>
                        if prevValue = NoneSym \<and> s_value s2 \<noteq> NoneSym \<and> resolver pr
                        then s2\<lparr> s_trace := s_trace s2 @ [Resolve (pid pr) (s_value s2)] \<rparr>
                        else s2)
          in Inr (s3, ad))"

text \<open>The delete case: \<open>target.splice(p, 1)\<close> when
  \<open>Array.isArray(target) && typeof p === 'number'\<close>, else
  \<open>delete target[p]\<close>.\<close>

fun delete_key :: "jsval \<Rightarrow> key \<Rightarrow> jsval" where
  "delete_key (Arr xs) (KNum n) = splice1 (Arr xs) n"
| "delete_key t k = delete_prop t k"

text \<open>\<open>Store.set\<close> for a non-empty path, after the promise check.\<close>

definition set_nested ::
  "'s Store \<Rightarrow> SetActionDescriptor \<Rightarrow> jsval \<Rightarrow> jsval \<Rightarrow> error + 's Store \<times> SetActionDescriptor" where
  "set_nested s ad v mergeValue =
     (let parent = butlast (path ad); p = last (path ad) in
      case walk (s_value s) parent of
        Inl e \<Rightarrow> Inl e
      | Inr target \<Rightarrow>
          (case has_prop p target of
             Inl e \<Rightarrow> Inl e
           | Inr True \<Rightarrow>
               (case get_prop target p of
                  Inl e \<Rightarrow> Inl e
                | Inr prevValue \<Rightarrow>
                    if v \<noteq> NoneSym
                    then
                      (case set_prop target p v of
                         Inl e \<Rightarrow> Inl e
                       | Inr target' \<Rightarrow>
                           let root = replace_at (s_value s) parent target' in
                           Inr (afterSet (s\<lparr> s_value := root \<rparr>)
                                  \<lparr> arg_path = path ad, arg_state = Some root,
                                    arg_value = Some v, arg_previous = Some prevValue,
                                    arg_merged = mergeValue \<rparr>,
                                ad))
                    else
                      let target' = delete_key target p;
                          root = replace_at (s_value s) parent target'
                      in
                      Inr (afterSet (s\<lparr> s_value := root \<rparr>)
                             \<lparr> arg_path = path ad, arg_state = Some root, arg_value = None,
                               arg_previous = Some prevValue, arg_merged = mergeValue \<rparr>,
                           \<lparr> path = parent, actions = Some [(prop_name p, Del)] \<rparr>))
           | Inr False \<Rightarrow>
               if v \<noteq> NoneSym
               then
                 (case set_prop target p v of
                    Inl e \<Rightarrow> Inl e
                  | Inr target' \<Rightarrow>
                      let root = replace_at (s_value s) parent target' in
                      Inr (afterSet (s\<lparr> s_value := root \<rparr>)
                             \<lparr> arg_path = path ad, arg_state = Some root, arg_value = Some v,
                               arg_previous = None, arg_merged = mergeValue \<rparr>,
                           \<lparr> path = parent, actions = Some [(prop_name p, Ins)] \<rparr>))
               else Inr (s, ad)))"

definition Store_set ::
  "'s Store \<Rightarrow> SetActionDescriptor \<Rightarrow> jsval \<Rightarrow> jsval \<Rightarrow> error + 's Store \<times> SetActionDescriptor" where
  "Store_set s ad v mergeValue =
     (if s_edition s < 0 then Inl (StateInvalidUsageError (path ad) SetStateWhenDestroyed)
      else if length (path ad) = 0 then set_root s ad v mergeValue
      else if is_object v \<and> promiseDetector v
      then Inl (StateInvalidUsageError (path ad) SetStateNestedToPromised)
      else set_nested s ad v mergeValue)"

text \<open>\<open>Store.update\<close>. A subscriber is any value with an \<open>onSet\<close>: the
  function \<open>f\<close> gives, for a subscriber and a descriptor, the subscriber
  afterwards, the callbacks it adds to the set \<open>actions\<close> (in order) and
  its result.\<close>

type_synonym 's onSet_fun = "'s \<Rightarrow> SetActionDescriptor \<Rightarrow> 's \<times> nat list \<times> bool"

text \<open>\<open>this._subscribers.forEach(s => s.onSet(ad, actions))\<close>, from position
  \<open>i\<close> on.\<close>

fun notify_subscribers ::
  "'s onSet_fun \<Rightarrow> SetActionDescriptor \<Rightarrow> nat \<Rightarrow> 's list \<Rightarrow> nat list \<Rightarrow>
     's list \<times> nat list \<times> event list" where
  "notify_subscribers f ad i [] acts = ([], acts, [])"
| "notify_subscribers f ad i (s # ss) acts =
     (case f s ad of
        (s', added, r) \<Rightarrow>
          (case notify_subscribers f ad (Suc i) ss (fold set_add added acts) of
             (ss', acts', evs) \<Rightarrow> (s' # ss', acts', Notify i ad # evs)))"

text \<open>\<open>Object.keys(ad.actions).forEach(key => ...)\<close>.\<close>

fun notify_keys ::
  "'s onSet_fun \<Rightarrow> path \<Rightarrow> string list \<Rightarrow> 's list \<Rightarrow> nat list \<Rightarrow>
     's list \<times> nat list \<times> event list" where
  "notify_keys f p [] ss acts = (ss, acts, [])"
| "notify_keys f p (k # ks) ss acts =
     (case notify_subscribers f \<lparr> path = p @ [KStr k], actions = None \<rparr> 0 ss acts of
        (ss', acts', evs) \<Rightarrow>
          (case notify_keys f p ks ss' acts' of
             (ss'', acts'', evs') \<Rightarrow> (ss'', acts'', evs @ evs')))"

definition all_update :: "SetActionDescriptor \<Rightarrow> bool" where
  "all_update ad =
     (case actions ad of None \<Rightarrow> False | Some am \<Rightarrow> list_all (\<lambda>a. a = Upd) (map snd am))"

definition fan_out ::
  "'s onSet_fun \<Rightarrow> 's list \<Rightarrow> SetActionDescriptor \<Rightarrow> 's list \<times> nat list \<times> event list" where
  "fan_out f ss ad =
     (case actions ad of
        None \<Rightarrow> notify_subscribers f ad 0 ss []
      | Some am \<Rightarrow>
          if list_all (\<lambda>a. a = Upd) (map snd am)
          then notify_keys f (path ad) (map fst am) ss []
          else notify_subscribers f ad 0 ss [])"

definition Store_update :: "'s onSet_fun \<Rightarrow> 's Store \<Rightarrow> SetActionDescriptor \<Rightarrow> 's Store" where
  "Store_update f s ad =
     (case fan_out f (s_subscribers s) ad of
        (ss', acts, evs) \<Rightarrow>
          s\<lparr> s_subscribers := ss',
             s_trace := s_trace s @ evs @ map Rerender acts \<rparr>)"

definition Store_destroy :: "'s Store \<Rightarrow> 's Store" where
  "Store_destroy s =
     s\<lparr> s_trace := s_trace s @
          map (\<lambda>cb. OnDestroy cb (if s_value s \<noteq> NoneSym then Some (s_value s) else None))
            (s_destroySubscribers s),
        s_edition := DestroyedEdition \<rparr>"

text \<open>\<open>Store.register\<close>, for a plugin whose \<open>init\<close> returns the callbacks
  named by the two flags; the callbacks are numbered by the plugin.\<close>

record Plugin =
  plugin_id :: nat
  has_onSet :: bool
  has_onDestroy :: bool

definition register :: "'s Store \<Rightarrow> Plugin \<Rightarrow> 's Store" where
  "register s pl =
     (if plugin_id pl \<in> set (s_plugins s) then s
      else s\<lparr> s_plugins := s_plugins s @ [plugin_id pl],
              s_setSubscribers :=
                (if has_onSet pl then set_add (plugin_id pl) (s_setSubscribers s)
                 else s_setSubscribers s),
              s_destroySubscribers :=
                (if has_onDestroy pl then set_add (plugin_id pl) (s_destroySubscribers s)
                 else s_destroySubscribers s) \<rparr>)"

text \<open>The handlers the constructor of \<open>Promised\<close> chains to the promise, run
  for the \<open>Promised\<close> numbered \<open>i\<close>. An object that is no longer the
  store's \<open>_promised\<close> changes nothing in the store. An exception of
  \<open>onResolve\<close> is caught by the \<open>catch\<close> handler, whose \<open>onReject\<close>
  finds \<open>_promised\<close> already cleared.\<close>

definition promise_then :: "'s onSet_fun \<Rightarrow> 's Store \<Rightarrow> nat \<Rightarrow> jsval \<Rightarrow> 's Store" where
  "promise_then f s i r =
     (case s_promised s of
        None \<Rightarrow> s
      | Some pr \<Rightarrow>
          if pid pr \<noteq> i then s
          else
            let s1 = s\<lparr> s_promised := Some (pr\<lparr> fullfilled := True \<rparr>) \<rparr> in
            if resolver pr then s1
            else if s_edition s1 \<noteq> DestroyedEdition
            then
              let s2 = s1\<lparr> s_promised := None \<rparr> in
              (case Store_set s2 \<lparr> path = RootPath, actions = None \<rparr> r Undefined of
                 Inl e \<Rightarrow> s2
               | Inr (s3, ad) \<Rightarrow> Store_update f s3 ad)
            else s1)"

definition promise_catch :: "'s onSet_fun \<Rightarrow> 's Store \<Rightarrow> nat \<Rightarrow> jsval \<Rightarrow> 's Store" where
  "promise_catch f s i err =
     (case s_promised s of
        None \<Rightarrow> s
      | Some pr \<Rightarrow>
          if pid pr \<noteq> i then s
          else
            let s1 = s\<lparr> s_promised := Some (pr\<lparr> fullfilled := True, p_error := Some err \<rparr>) \<rparr> in
            if s_edition s1 \<noteq> DestroyedEdition
            then Store_update f (s1\<lparr> s_edition := s_edition s1 + 1 \<rparr>)
                   \<lparr> path = RootPath, actions = None \<rparr>
            else s1)"

text \<open>The operations on a store, and a run of them; a write that throws
  leaves the store as it was.\<close>

datatype operation =
    OpSet SetActionDescriptor jsval jsval
  | OpThen nat jsval
  | OpCatch nat jsval
  | OpDestroy

fun step :: "'s onSet_fun \<Rightarrow> 's Store \<Rightarrow> operation \<Rightarrow> 's Store" where
  "step f s (OpSet ad v m) =
     (case Store_set s ad v m of Inl e \<Rightarrow> s | Inr (s', ad') \<Rightarrow> Store_update f s' ad')"
| "step f s (OpThen i r) = promise_then f s i r"
| "step f s (OpCatch i err) = promise_catch f s i err"
| "step f s OpDestroy = Store_destroy s"

fun run :: "'s onSet_fun \<Rightarrow> 's Store \<Rightarrow> operation list \<Rightarrow> 's Store" where
  "run f s [] = s"
| "run f s (x # xs) = run f (step f s x) xs"

text \<open>Notions the statements about the store use. A subscriber-less store
  has subscribers of type \<open>unit\<close>; \<open>no_subscriber\<close> is an \<open>onSet\<close>
  that does nothing.\<close>

definition no_subscriber :: "unit onSet_fun" where
  "no_subscriber u ad = (u, [], False)"

text \<open>A write and the read of the same path after it.\<close>

definition set_then_get ::
  "'s Store \<Rightarrow> SetActionDescriptor \<Rightarrow> jsval \<Rightarrow> jsval \<Rightarrow> error + jsval" where
  "set_then_get s ad v m =
     (case Store_set s ad v m of
        Inl e \<Rightarrow> Inl e
      | Inr (s', ad') \<Rightarrow> Store_get s' (path ad))"

text \<open>The write is the last case of \<open>Store.set\<close>: a nested key that the
  parent does not have, and the value \<open>none\<close>.\<close>

definition deletes_absent_key :: "'s Store \<Rightarrow> SetActionDescriptor \<Rightarrow> jsval \<Rightarrow> bool" where
  "deletes_absent_key s ad v =
     (path ad \<noteq> [] \<and> v = NoneSym \<and>
      (case walk (s_value s) (butlast (path ad)) of
         Inl e \<Rightarrow> False
       | Inr t \<Rightarrow> has_prop (last (path ad)) t = Inr False))"

text \<open>The key names \<open>__proto__\<close> on a plain object that has no own
  property of that name, so that an assignment runs the inherited setter; and a
  write that ends in such a key.\<close>

fun inherited_proto :: "jsval \<Rightarrow> key \<Rightarrow> bool" where
  "inherited_proto (Obj kvs) k = (prop_name k = ''__proto__'' \<and> \<not> obj_has kvs ''__proto__'')"
| "inherited_proto t k = False"

definition writes_inherited_proto :: "'s Store \<Rightarrow> SetActionDescriptor \<Rightarrow> bool" where
  "writes_inherited_proto s ad =
     (path ad \<noteq> [] \<and>
      (case walk (s_value s) (butlast (path ad)) of
         Inl e \<Rightarrow> False
       | Inr t \<Rightarrow> inherited_proto t (last (path ad))))"

text \<open>The test of the third root case:
  \<open>this._promised && (!this._promised.resolver && !this._promised.fullfilled)\<close>.
  A \<open>Promised\<close> has no resolver exactly when it was built from a promise.\<close>

definition pending_with_source :: "'s Store \<Rightarrow> bool" where
  "pending_with_source s =
     (case s_promised s of None \<Rightarrow> False | Some pr \<Rightarrow> \<not> resolver pr \<and> \<not> fullfilled pr)"

text \<open>The same test as the specification words it: a \<open>Promised\<close> without
  a source promise that is not yet fulfilled.\<close>

definition pending_without_source :: "'s Store \<Rightarrow> bool" where
  "pending_without_source s =
     (case s_promised s of None \<Rightarrow> False | Some pr \<Rightarrow> promise pr = None \<and> \<not> fullfilled pr)"

text \<open>The invariant of the specification, and the half of it that the store
  keeps.\<close>

definition absent_iff_pending :: "'s Store \<Rightarrow> bool" where
  "absent_iff_pending s = (s_value s = NoneSym \<longleftrightarrow> s_promised s \<noteq> None)"

definition absent_implies_pending :: "'s Store \<Rightarrow> bool" where
  "absent_implies_pending s = (s_value s = NoneSym \<longrightarrow> s_promised s \<noteq> None)"

definition store_inv :: "'s Store \<Rightarrow> bool" where
  "store_inv s = (- 1 \<le> s_edition s \<and> absent_implies_pending s)"

text \<open>How often a destroy callback was called in a list of events, and the
  events that a store gained since an earlier one.\<close>

fun is_destroy_call :: "nat \<Rightarrow> event \<Rightarrow> bool" where
  "is_destroy_call cb (OnDestroy c a) = (c = cb)"
| "is_destroy_call cb e = False"

definition destroy_calls :: "nat \<Rightarrow> event list \<Rightarrow> nat" where
  "destroy_calls cb evs = length (filter (is_destroy_call cb) evs)"

definition new_events :: "'s Store \<Rightarrow> 's Store \<Rightarrow> event list" where
  "new_events s s' = drop (length (s_trace s)) (s_trace s')"

text \<open>An operation that adds events, none of them a call of a destroy
  callback, and leaves the set of destroy callbacks as it is.\<close>

definition quiet :: "'s Store \<Rightarrow> 's Store \<Rightarrow> bool" where
  "quiet s s' =
     (s_destroySubscribers s' = s_destroySubscribers s \<and>
      (\<exists>evs. s_trace s' = s_trace s @ evs \<and> (\<forall>cb. destroy_calls cb evs = 0)))"

section \<open>Tracking nodes\<close>

text \<open>Class \<open>StateMethodsImpl\<close>, with the fields that \<open>getUntracked\<close>,
  \<open>get\<close>, \<open>setUntrackedV4\<close>, \<open>set\<close>, \<open>mergeUntrackedV4\<close>,
  \<open>merge\<close> and \<open>onSet\<close> read or write. \<open>onSetUsed\<close> is the number of
  the rerender callback and \<open>isMounted\<close> the absence of its
  \<open>UnmountedMarker\<close>; \<open>valueUsed = None\<close> is \<open>ValueUnusedMarker\<close>, and a
  proxy held in \<open>valueUsed\<close> is kept as the value it wraps; \<open>selfUsed\<close>
  tells whether the cached \<open>State\<close> proxy is there. The store is passed
  to the methods. An exception ends a call: what the call changed before it
  is not reported.\<close>

datatype node = Node
  (n_path: path)
  (valueSource: jsval)
  (valueEdition: int)
  (onSetUsed: nat)
  (isMounted: bool)
  (subscribers: "node list option")
  (downgraded: bool)
  (childrenUsed: "(string \<times> node) list option")
  (selfUsed: bool)
  (valueUsed: "jsval option")

definition set_valueSource :: "jsval \<Rightarrow> node \<Rightarrow> node" where
  "set_valueSource x n =
     Node (n_path n) x (valueEdition n) (onSetUsed n) (isMounted n) (subscribers n)
       (downgraded n) (childrenUsed n) (selfUsed n) (valueUsed n)"

definition set_valueEdition :: "int \<Rightarrow> node \<Rightarrow> node" where
  "set_valueEdition x n =
     Node (n_path n) (valueSource n) x (onSetUsed n) (isMounted n) (subscribers n)
       (downgraded n) (childrenUsed n) (selfUsed n) (valueUsed n)"

definition set_downgraded :: "bool \<Rightarrow> node \<Rightarrow> node" where
  "set_downgraded x n =
     Node (n_path n) (valueSource n) (valueEdition n) (onSetUsed n) (isMounted n) (subscribers n)
       x (childrenUsed n) (selfUsed n) (valueUsed n)"

definition set_childrenUsed :: "(string \<times> node) list option \<Rightarrow> node \<Rightarrow> node" where
  "set_childrenUsed x n =
     Node (n_path n) (valueSource n) (valueEdition n) (onSetUsed n) (isMounted n) (subscribers n)
       (downgraded n) x (selfUsed n) (valueUsed n)"

definition set_selfUsed :: "bool \<Rightarrow> node \<Rightarrow> node" where
  "set_selfUsed x n =
     Node (n_path n) (valueSource n) (valueEdition n) (onSetUsed n) (isMounted n) (subscribers n)
       (downgraded n) (childrenUsed n) x (valueUsed n)"

definition set_valueUsed :: "jsval option \<Rightarrow> node \<Rightarrow> node" where
  "set_valueUsed x n =
     Node (n_path n) (valueSource n) (valueEdition n) (onSetUsed n) (isMounted n) (subscribers n)
       (downgraded n) (childrenUsed n) (selfUsed n) x"

definition set_subscribers :: "node list option \<Rightarrow> node \<Rightarrow> node" where
  "set_subscribers x n =
     Node (n_path n) (valueSource n) (valueEdition n) (onSetUsed n) (isMounted n) x
       (downgraded n) (childrenUsed n) (selfUsed n) (valueUsed n)"

text \<open>\<open>constructor.name === "Object"\<close> for an object that is no array;
  a plain object with an own property \<open>constructor\<close>, which hides the
  inherited one, is outside the embedding.\<close>

fun is_plain_object :: "jsval \<Rightarrow> bool" where
  "is_plain_object (Obj kvs) = True"
| "is_plain_object v = False"

text \<open>The part of \<open>get\<close> after \<open>getUntracked\<close>: the value is marked
  used.\<close>

definition mark_used :: "node \<Rightarrow> jsval \<Rightarrow> node" where
  "mark_used n currentValue =
     (if valueUsed n = None
      then if downgraded n then set_valueUsed (Some currentValue) n
           else if isArray currentValue then set_valueUsed (Some currentValue) n
           else if is_object currentValue
           then if is_plain_object currentValue then set_valueUsed (Some currentValue) n
                else set_valueUsed (Some currentValue) (set_downgraded True n)
           else set_valueUsed (Some currentValue) n
      else n)"

text \<open>\<open>getUntracked\<close>. The call \<open>this.get(true)\<close> in it finds the
  editions equal, so it only marks the value used.\<close>

definition refresh :: "'s Store \<Rightarrow> node \<Rightarrow> error + node" where
  "refresh s n =
     (if valueEdition n \<noteq> s_edition s
      then case Store_get s (n_path n) of
             Inl e \<Rightarrow> Inl e
           | Inr v \<Rightarrow>
               let n1 = set_valueEdition (s_edition s) (set_valueSource v n) in
               Inr (if isMounted n1
                    then if valueUsed n1 \<noteq> None then mark_used (set_valueUsed None n1) v else n1
                    else set_selfUsed False (set_childrenUsed None (set_valueUsed None n1)))
      else Inr n)"

definition getUntracked :: "'s Store \<Rightarrow> node \<Rightarrow> bool \<Rightarrow> error + node \<times> jsval" where
  "getUntracked s n allowPromised =
     (case refresh s n of
        Inl e \<Rightarrow> Inl e
      | Inr n1 \<Rightarrow>
          if valueSource n1 = NoneSym \<and> \<not> allowPromised
          then case s_promised s of
                 None \<Rightarrow> Inl (StateInvalidUsageError (n_path n1) GetStateWhenPromised)
               | Some pr \<Rightarrow>
                   (case p_error pr of
                      None \<Rightarrow> Inl (StateInvalidUsageError (n_path n1) GetStateWhenPromised)
                    | Some err \<Rightarrow>
                        if truthy err then Inl (Thrown err)
                        else Inl (StateInvalidUsageError (n_path n1) GetStateWhenPromised))
          else Inr (n1, valueSource n1))"

definition node_get :: "'s Store \<Rightarrow> node \<Rightarrow> bool \<Rightarrow> error + node \<times> jsval" where
  "node_get s n allowPromised =
     (case getUntracked s n allowPromised of
        Inl e \<Rightarrow> Inl e
      | Inr (n1, currentValue) \<Rightarrow>
          let n2 = mark_used n1 currentValue in
          Inr (n2, (case valueUsed n2 of None \<Rightarrow> currentValue | Some u \<Rightarrow> u)))"

text \<open>\<open>SetStateAction\<close>: a value, or a function of the previous value. A
  \<open>Builtin\<close> handed in as a value is a function of the language, which the
  methods would call: that is left out.\<close>

datatype SetStateAction = Value jsval | Updater "jsval \<Rightarrow> jsval"

fun has_SelfMethodsID :: "jsval \<Rightarrow> bool" where
  "has_SelfMethodsID (StateValue i) = True"
| "has_SelfMethodsID v = False"

text \<open>\<open>a === b\<close> for a primitive \<open>a\<close>: \<open>NaN\<close> equals nothing.\<close>

definition strict_eq :: "jsval \<Rightarrow> jsval \<Rightarrow> bool" where
  "strict_eq a b = (a \<noteq> NaN \<and> a = b)"

definition setUntrackedV4 ::
  "'s Store \<Rightarrow> node \<Rightarrow> SetStateAction \<Rightarrow> jsval \<Rightarrow>
     error + 's Store \<times> node \<times> SetActionDescriptor option" where
  "setUntrackedV4 s n newValue mergeValue =
     (case (case newValue of
              Value (Builtin b) \<Rightarrow> Inl Unmodelled
            | Value v \<Rightarrow> Inr (n, v)
            | Updater g \<Rightarrow>
                (case getUntracked s n False of
                   Inl e \<Rightarrow> Inl e
                 | Inr (n1, prevValue) \<Rightarrow> Inr (n1, g prevValue))) of
        Inl e \<Rightarrow> Inl e
      | Inr (n1, v) \<Rightarrow>
          if is_object v \<and> has_SelfMethodsID v
          then Inl (StateInvalidUsageError (n_path n1) SetStateToValueFromState)
          else
            (case (if \<not> is_object v
                   then case getUntracked s n1 True of
                          Inl e \<Rightarrow> Inl e
                        | Inr (n2, currentValue) \<Rightarrow> Inr (n2, strict_eq v currentValue)
                   else Inr (n1, False)) of
               Inl e \<Rightarrow> Inl e
             | Inr (n2, unchanged) \<Rightarrow>
                 if unchanged then Inr (s, n2, None)
                 else
                   (case Store_set s \<lparr> path = n_path n2, actions = None \<rparr> v mergeValue of
                      Inl e \<Rightarrow> Inl e
                    | Inr (s', ad) \<Rightarrow> Inr (s', n2, Some ad))))"

definition node_set ::
  "'s onSet_fun \<Rightarrow> 's Store \<Rightarrow> node \<Rightarrow> SetStateAction \<Rightarrow> error + 's Store \<times> node" where
  "node_set f s n newValue =
     (case setUntrackedV4 s n newValue Undefined of
        Inl e \<Rightarrow> Inl e
      | Inr (s', n', None) \<Rightarrow> Inr (s', n')
      | Inr (s', n', Some ad) \<Rightarrow> Inr (Store_update f s' ad, n'))"

text \<open>\<open>Object.keys\<close>, \<open>String\<close> (a number from \<open>10^21\<close> on has an
  exponent form, which is left out) and the default \<open>sort\<close>, which orders by
  the string forms of the elements.\<close>

fun object_keys :: "jsval \<Rightarrow> error + string list" where
  "object_keys Undefined = Inl TypeError"
| "object_keys Null = Inl TypeError"
| "object_keys (Obj kvs) = Inr (map fst kvs)"
| "object_keys (Arr xs) = Inr (map dec (filter (\<lambda>i. xs ! i \<noteq> None) [0 ..< length xs]))"
| "object_keys (Str s) = Inr (map dec [0 ..< length s])"
| "object_keys (PromiseLike i) = Inl Unmodelled"
| "object_keys (StateValue i) = Inl Unmodelled"
| "object_keys (Builtin n) = Inl Unmodelled"
| "object_keys v = Inr []"

fun to_String :: "jsval \<Rightarrow> error + string" where
  "to_String (Str s) = Inr s"
| "to_String (Num i) =
     (if \<bar>i\<bar> < 1000000000000000000000
      then Inr (if i < 0 then CHR ''-'' # dec (nat (- i)) else dec (nat i))
      else Inl Unmodelled)"
| "to_String NaN = Inr ''NaN''"
| "to_String (Bool b) = Inr (if b then ''true'' else ''false'')"
| "to_String Null = Inr ''null''"
| "to_String Undefined = Inr ''undefined''"
| "to_String NoneSym = Inr ''Symbol(none)''"
| "to_String v = Inl Unmodelled"

fun sort_insert :: "('a \<Rightarrow> string) \<Rightarrow> 'a \<Rightarrow> 'a list \<Rightarrow> 'a list" where
  "sort_insert g x [] = [x]"
| "sort_insert g x (y # ys) =
     (if str_le (g x) (g y) then x # y # ys else y # sort_insert g x ys)"

definition js_sort :: "('a \<Rightarrow> string) \<Rightarrow> 'a list \<Rightarrow> 'a list" where
  "js_sort g xs = foldr (sort_insert g) xs []"

text \<open>A number that came out of \<open>Number(key)\<close>: \<open>None\<close> is \<open>NaN\<close>.\<close>

fun number_string :: "nat option \<Rightarrow> string" where
  "number_string None = ''NaN''"
| "number_string (Some n) = dec n"

text \<open>The loops of \<open>mergeUntrackedV4\<close>. Each takes the current value, the
  action map and, for an array merged with keys, the deleted indexes.
  \<open>actions_put\<close> is \<open>ad.actions[key] = tag\<close>: the action map starts as
  \<open>{}\<close>, so for the name \<open>__proto__\<close> the assignment runs the inherited
  setter, which ignores the tag.\<close>

definition actions_put ::
  "(string \<times> action) list \<Rightarrow> string \<Rightarrow> action \<Rightarrow> (string \<times> action) list" where
  "actions_put am k a =
     (if \<not> obj_has am k \<and> k = ''__proto__'' then am else obj_put am k a)"

fun merge_push ::
  "jsval option \<Rightarrow> jsval option list \<times> (string \<times> action) list \<Rightarrow>
     jsval option list \<times> (string \<times> action) list" where
  "merge_push None (xs, am) = (xs, am)"
| "merge_push (Some e) (xs, am) = (xs @ [Some e], actions_put am (dec (length xs)) Ins)"

fun merge_indexes ::
  "jsval \<Rightarrow> string list \<Rightarrow> jsval \<times> (string \<times> action) list \<times> nat list \<Rightarrow>
     error + jsval \<times> (string \<times> action) list \<times> nat list" where
  "merge_indexes src [] st = Inr st"
| "merge_indexes src (i # ks) (cur, am, deletedIndexes) =
     (case to_number i of
        None \<Rightarrow> Inl Unmodelled
      | Some index \<Rightarrow>
          (case get_prop src (KNum index) of
             Inl e \<Rightarrow> Inl e
           | Inr newPropValue \<Rightarrow>
               if newPropValue = NoneSym
               then merge_indexes src ks
                      (cur, actions_put am (dec index) Del, deletedIndexes @ [index])
               else
                 (case has_prop (KNum index) cur of
                    Inl e \<Rightarrow> Inl e
                  | Inr b \<Rightarrow>
                      (case set_prop cur (KNum index) newPropValue of
                         Inl e \<Rightarrow> Inl e
                       | Inr cur' \<Rightarrow>
                           merge_indexes src ks
                             (cur', actions_put am (dec index) (if b then Upd else Ins),
                              deletedIndexes)))))"

fun merge_keys ::
  "jsval \<Rightarrow> string list \<Rightarrow> jsval \<times> (string \<times> action) list \<Rightarrow>
     error + jsval \<times> (string \<times> action) list" where
  "merge_keys src [] st = Inr st"
| "merge_keys src (k # ks) (cur, am) =
     (case get_prop src (KStr k) of
        Inl e \<Rightarrow> Inl e
      | Inr newPropValue \<Rightarrow>
          if newPropValue = NoneSym
          then merge_keys src ks (delete_prop cur (KStr k), actions_put am k Del)
          else
            (case has_prop (KStr k) cur of
               Inl e \<Rightarrow> Inl e
             | Inr b \<Rightarrow>
                 (case set_prop cur (KStr k) newPropValue of
                    Inl e \<Rightarrow> Inl e
                  | Inr cur' \<Rightarrow>
                      merge_keys src ks (cur', actions_put am k (if b then Upd else Ins)))))"

text \<open>The end of the three container cases: when some action was recorded,
  the value, already changed in place (in the store too, where the node's value
  lives), is written through \<open>setUntrackedV4\<close> and the descriptor of the
  merge is returned.\<close>

definition merge_finish ::
  "'s Store \<Rightarrow> node \<Rightarrow> jsval \<Rightarrow> (string \<times> action) list \<Rightarrow> jsval \<Rightarrow>
     error + 's Store \<times> node \<times> SetActionDescriptor option" where
  "merge_finish s n cur am sourceValue =
     (if length am > 0
      then
        case setUntrackedV4 (s\<lparr> s_value := replace_at (s_value s) (n_path n) cur \<rparr>)
               (set_valueUsed (map_option (\<lambda>u. cur) (valueUsed n)) (set_valueSource cur n))
               (Value cur) sourceValue of
          Inl e \<Rightarrow> Inl e
        | Inr (s', n', r) \<Rightarrow> Inr (s', n', Some \<lparr> path = n_path n, actions = Some am \<rparr>)
      else Inr (s, n, None))"

definition mergeUntrackedV4 ::
  "'s Store \<Rightarrow> node \<Rightarrow> SetStateAction \<Rightarrow>
     error + 's Store \<times> node \<times> SetActionDescriptor option" where
  "mergeUntrackedV4 s n sv =
     (case getUntracked s n False of
        Inl e \<Rightarrow> Inl e
      | Inr (n1, currentValue) \<Rightarrow>
          let sourceValue = (case sv of Value v \<Rightarrow> v | Updater g \<Rightarrow> g currentValue) in
          if (case sv of Value (Builtin b) \<Rightarrow> True | _ \<Rightarrow> False) then Inl Unmodelled
          else
          case currentValue of
            Arr xs \<Rightarrow>
              (case sourceValue of
                 Arr ys \<Rightarrow>
                   (case fold merge_push ys (xs, []) of
                      (xs', am) \<Rightarrow> merge_finish s n1 (Arr xs') am sourceValue)
               | _ \<Rightarrow>
                   (case object_keys sourceValue of
                      Inl e \<Rightarrow> Inl e
                    | Inr ks \<Rightarrow>
                        (case merge_indexes sourceValue (js_sort id ks) (currentValue, [], []) of
                           Inl e \<Rightarrow> Inl e
                         | Inr (cur, am, deletedIndexes) \<Rightarrow>
                             merge_finish s n1
                               (fold (\<lambda>p t. splice1 t p) (rev deletedIndexes) cur)
                               am sourceValue)))
          | _ \<Rightarrow>
              if is_object currentValue
              then
                if is_plain_object currentValue
                then
                  (case object_keys sourceValue of
                     Inl e \<Rightarrow> Inl e
                   | Inr ks \<Rightarrow>
                       (case merge_keys sourceValue ks (currentValue, []) of
                          Inl e \<Rightarrow> Inl e
                        | Inr (cur, am) \<Rightarrow> merge_finish s n1 cur am sourceValue))
                else Inl Unmodelled
              else
                (case currentValue of
                   Str c \<Rightarrow>
                     (case to_String sourceValue of
                        Inl e \<Rightarrow> Inl e
                      | Inr t \<Rightarrow> setUntrackedV4 s n1 (Value (Str (c @ t))) sourceValue)
                 | _ \<Rightarrow> setUntrackedV4 s n1 (Value sourceValue) Undefined))"

definition node_merge ::
  "'s onSet_fun \<Rightarrow> 's Store \<Rightarrow> node \<Rightarrow> SetStateAction \<Rightarrow> error + 's Store \<times> node" where
  "node_merge f s n sv =
     (case mergeUntrackedV4 s n sv of
        Inl e \<Rightarrow> Inl e
      | Inr (s', n', None) \<Rightarrow> Inr (s', n')
      | Inr (s', n', Some ad) \<Rightarrow> Inr (Store_update f s' ad, n'))"

text \<open>\<open>onSet\<close>. The set \<open>actions\<close> is passed in and returned.
  \<open>first_deleted\<close> is \<open>firstDeletedIndex\<close>: the keys of the action map
  as numbers, sorted by the default \<open>sort\<close>, searched for the first one
  tagged \<open>"D"\<close>; the outer \<open>None\<close> is \<open>undefined\<close>. The children
  cache is read by its own keys: a path whose next key names a member that the
  cache inherits from \<open>Object.prototype\<close> is outside the embedding.\<close>

definition first_deleted :: "(string \<times> action) list \<Rightarrow> nat option option" where
  "first_deleted am =
     find (\<lambda>i. map_of am (number_string i) = Some Del)
       (js_sort number_string (map to_number (map fst am)))"

text \<open>\<open>Number(childKey) >= firstDeletedIndex\<close>.\<close>

fun number_ge :: "nat option \<Rightarrow> nat option option \<Rightarrow> bool" where
  "number_ge (Some c) (Some (Some d)) = (d \<le> c)"
| "number_ge c d = False"

definition prune_children ::
  "jsval \<Rightarrow> (string \<times> action) list \<Rightarrow> (string \<times> node) list \<Rightarrow> (string \<times> node) list" where
  "prune_children vs am cu =
     (if isArray vs \<and> Del \<in> set (map snd am)
      then filter (\<lambda>c. \<not> (number_ge (to_number (fst c)) (first_deleted am) \<or>
                             obj_in am (fst c))) cu
      else filter (\<lambda>c. \<not> obj_has am (fst c)) cu)"

text \<open>\<open>path[this.path.length]\<close>.\<close>

definition next_child_key :: "path \<Rightarrow> path \<Rightarrow> key option" where
  "next_child_key p own =
     (if length own < length p then Some (p ! length own) else None)"

fun onSet :: "node \<Rightarrow> SetActionDescriptor \<Rightarrow> nat list \<Rightarrow> node \<times> nat list \<times> bool"
and onSet_child ::
  "(string \<times> node) list \<Rightarrow> string \<Rightarrow> SetActionDescriptor \<Rightarrow> nat list \<Rightarrow>
     ((string \<times> node) list \<times> nat list \<times> bool) option"
and onSet_subscribers ::
  "node list \<Rightarrow> SetActionDescriptor \<Rightarrow> nat list \<Rightarrow> node list \<times> nat list \<times> bool" where
  "onSet (Node p vs ve cb mounted subs dg cu su vu) ad acts =
     (let isAffected = (dg \<and> vu \<noteq> None);
          acts1 = (if isAffected then set_add cb acts else acts);
          su1 = (if isAffected then False else su);
          (cu2, su2, acts2, updated) =
            (case next_child_key (path ad) p of
               None \<Rightarrow>
                 if vu \<noteq> None
                 then ((case (actions ad, cu) of
                          (Some am, Some c) \<Rightarrow> Some (prune_children vs am c)
                        | _ \<Rightarrow> None),
                       False, set_add cb acts1, True)
                 else (cu, su1, acts1, isAffected)
             | Some nextChildKey \<Rightarrow>
                 (case cu of
                    None \<Rightarrow> (cu, su1, acts1, isAffected)
                  | Some c \<Rightarrow>
                      (case onSet_child c (prop_name nextChildKey) ad acts1 of
                         None \<Rightarrow> (cu, su1, acts1, isAffected)
                       | Some (c', acts', r) \<Rightarrow>
                           if r then (Some c', False, acts', True)
                           else (Some c', su1, acts', isAffected))))
      in
        if \<not> updated
        then (case subs of
                None \<Rightarrow> (Node p vs ve cb mounted subs dg cu2 su2 vu, acts2, updated)
              | Some ss \<Rightarrow>
                  (case onSet_subscribers ss ad acts2 of
                     (ss', acts3, r) \<Rightarrow>
                       (Node p vs ve cb mounted (Some ss') dg cu2 (if r then False else su2) vu,
                        acts3, updated)))
        else (Node p vs ve cb mounted subs dg cu2 su2 vu, acts2, updated))"
| "onSet_child [] k ad acts = None"
| "onSet_child ((k', c) # cs) k ad acts =
     (if k' = k
      then (case onSet c ad acts of (c', acts', r) \<Rightarrow> Some ((k', c') # cs, acts', r))
      else (case onSet_child cs k ad acts of
              None \<Rightarrow> None
            | Some (cs', acts', r) \<Rightarrow> Some ((k', c) # cs', acts', r)))"
| "onSet_subscribers [] ad acts = ([], acts, False)"
| "onSet_subscribers (x # xs) ad acts =
     (case onSet x ad acts of
        (x', acts', r) \<Rightarrow>
          (case onSet_subscribers xs ad acts' of
             (xs', acts'', r') \<Rightarrow> (x' # xs', acts'', r \<or> r')))"

section \<open>Notions for the statements about notification\<close>

text \<open>The callbacks that the subscribers hand to \<open>actions.add\<close>, in order,
  during one pass over the subscribers, during the passes for a list of keys,
  and during \<open>Store.update\<close>.\<close>

fun added :: "'s onSet_fun \<Rightarrow> SetActionDescriptor \<Rightarrow> 's list \<Rightarrow> nat list" where
  "added f ad [] = []"
| "added f ad (s # ss) = fst (snd (f s ad)) @ added f ad ss"

fun added_keys :: "'s onSet_fun \<Rightarrow> path \<Rightarrow> string list \<Rightarrow> 's list \<Rightarrow> nat list" where
  "added_keys f p [] ss = []"
| "added_keys f p (k # ks) ss =
     added f \<lparr> path = p @ [KStr k], actions = None \<rparr> ss @
     added_keys f p ks (map (\<lambda>s. fst (f s \<lparr> path = p @ [KStr k], actions = None \<rparr>)) ss)"

definition action_keys :: "SetActionDescriptor \<Rightarrow> string list" where
  "action_keys ad = (case actions ad of None \<Rightarrow> [] | Some am \<Rightarrow> map fst am)"

definition added_all :: "'s onSet_fun \<Rightarrow> 's list \<Rightarrow> SetActionDescriptor \<Rightarrow> nat list" where
  "added_all f ss ad =
     (if all_update ad then added_keys f (path ad) (action_keys ad) ss else added f ad ss)"

text \<open>The notifications the specification describes, for \<open>n\<close> subscribers:
  one single-key descriptor per key to every subscriber when every action is an
  update, else the descriptor as it is to every subscriber.\<close>

definition notifications :: "nat \<Rightarrow> SetActionDescriptor \<Rightarrow> event list" where
  "notifications n ad =
     (if all_update ad
      then concat (map (\<lambda>k. map (\<lambda>i. Notify i \<lparr> path = path ad @ [KStr k], actions = None \<rparr>)
                               [0 ..< n])
                     (action_keys ad))
      else map (\<lambda>i. Notify i ad) [0 ..< n])"

text \<open>A subscriber that adds the callbacks it consists of.\<close>

definition fixed_subscriber :: "nat list onSet_fun" where
  "fixed_subscriber cbs ad = (cbs, cbs, cbs \<noteq> [])"

section \<open>An array state with two children read\<close>

definition example_array :: jsval where
  "example_array = Arr (map (\<lambda>i. Some (Num (int i))) [0 ..< 12])"

definition example_child :: "nat \<Rightarrow> node" where
  "example_child i =
     Node [KNum i] (Num (int i)) 0 7 True None False None False (Some (Num (int i)))"

definition example_node :: node where
  "example_node =
     Node [] example_array 0 7 True None False
       (Some [(''5'', example_child 5), (''11'', example_child 11)]) False (Some example_array)"

text \<open>The keys of the children cache, and the descriptor a call returned.\<close>

definition cached_children :: "node \<Rightarrow> string list" where
  "cached_children n = (case childrenUsed n of None \<Rightarrow> [] | Some c \<Rightarrow> map fst c)"

definition returned_descriptor ::
  "error + 's Store \<times> node \<times> SetActionDescriptor option \<Rightarrow> SetActionDescriptor option" where
  "returned_descriptor r = (case r of Inl e \<Rightarrow> None | Inr (s, n, ad) \<Rightarrow> ad)"

section \<open>Notions for the statement about merging\<close>

text \<open>What the specification says of a merge of the keyed object \<open>src\<close>
  into the object \<open>cur\<close>, key by key: a key that \<open>src\<close> does not have
  keeps its value and gets no action; a key that \<open>src\<close> gives the delete
  sentinel is removed, tagged as a delete; any other key of \<open>src\<close> takes the
  value \<open>src\<close> gives it, tagged as an update when \<open>cur\<close> had the key
  (\<open>key in cur\<close>) and as an insert when it had not.\<close>

definition merged_value ::
  "(string \<times> jsval) list \<Rightarrow> (string \<times> jsval) list \<Rightarrow> string \<Rightarrow> jsval option" where
  "merged_value cur src k =
     (case map_of src k of
        None \<Rightarrow> map_of cur k
      | Some v \<Rightarrow> if v = NoneSym then None else Some v)"

definition merged_action ::
  "(string \<times> jsval) list \<Rightarrow> (string \<times> jsval) list \<Rightarrow> string \<Rightarrow> action option" where
  "merged_action cur src k =
     (case map_of src k of
        None \<Rightarrow> None
      | Some v \<Rightarrow> Some (if v = NoneSym then Del else if obj_in cur k then Upd else Ins))"

section \<open>Properties of property access and of the walk\<close>

lemma map_of_obj_replace:
  "map_of kvs n \<noteq> None \<Longrightarrow> map_of (obj_replace n v kvs) = (map_of kvs)(n \<mapsto> v)"
  by (induction kvs) (auto split: if_splits)

lemma map_of_obj_insert:
  "map_of kvs n = None \<Longrightarrow> map_of (obj_insert n v kvs) = (map_of kvs)(n \<mapsto> v)"
  by (induction kvs) (auto split: if_splits)

lemma map_of_obj_put: "map_of (obj_put kvs n v) = (map_of kvs)(n \<mapsto> v)"
  by (simp add: obj_put_def obj_has_def map_of_obj_replace map_of_obj_insert)

lemma map_of_obj_delete: "map_of (obj_delete kvs n) = (map_of kvs)(n := None)"
  by (induction kvs) (auto simp: obj_delete_def)

lemma has_prop_container: "has_prop k t = Inr b \<Longrightarrow> is_container t"
  by (cases t) auto

text \<open>What was assigned is read back, unless the inherited setter of
  \<open>__proto__\<close> took the assignment.\<close>

lemma get_set_prop:
  "set_prop t k v = Inr t' \<Longrightarrow> \<not> inherited_proto t k \<Longrightarrow> get_prop t' k = Inr v"
  by (cases t)
     (auto simp: map_of_obj_replace map_of_obj_insert obj_has_def nth_append
        split: option.splits if_splits)

lemma get_prop_container:
  "get_prop c k = Inr c' \<Longrightarrow> is_container c' \<Longrightarrow> is_container c"
  by (cases c) (auto split: option.splits if_splits)

lemma walk_container:
  "walk c ks = Inr t \<Longrightarrow> is_container t \<Longrightarrow> is_container c"
proof (induction ks arbitrary: c)
  case Nil
  then show ?case by simp
next
  case (Cons k ks)
  then obtain c' where c': "get_prop c k = Inr c'" "walk c' ks = Inr t"
    by (auto split: sum.splits)
  then have "is_container c'" using Cons by blast
  then show ?case using c' get_prop_container by blast
qed

lemma get_prop_has_prop:
  "get_prop c k = Inr c' \<Longrightarrow> is_container c \<Longrightarrow> \<exists>b. has_prop k c = Inr b"
  by (cases c) (auto split: option.splits if_splits)

lemma set_prop_container: "set_prop t k v = Inr t' \<Longrightarrow> is_container t'"
  by (cases t) (auto split: option.splits if_splits)

text \<open>A container that is read under a key is an own property there, and can
  be replaced.\<close>

lemma set_own:
  "get_prop r k = Inr c \<Longrightarrow> is_container c \<Longrightarrow>
   \<exists>r'. set_prop r k x = Inr r' \<and> get_prop r' k = Inr x"
  by (cases r)
     (auto simp: map_of_obj_replace obj_has_def split: option.splits if_splits)

lemma walk_replace_at:
  "walk r ks = Inr t \<Longrightarrow> is_container t \<Longrightarrow> walk (replace_at r ks t') ks = Inr t'"
proof (induction ks arbitrary: r)
  case Nil
  then show ?case by simp
next
  case (Cons k ks)
  then obtain c where c: "get_prop r k = Inr c" "walk c ks = Inr t"
    by (auto split: sum.splits)
  have cc: "is_container c" using c(2) Cons.prems(2) by (rule walk_container)
  obtain r' where r': "set_prop r k (replace_at c ks t') = Inr r'"
    "get_prop r' k = Inr (replace_at c ks t')"
    using set_own [OF c(1) cc] by blast
  have "replace_at r (k # ks) t' = r'"
    using c(1) cc r'(1) by simp
  moreover have "walk (replace_at c ks t') ks = Inr t'"
    using Cons.IH [OF c(2) Cons.prems(2)] .
  ultimately show ?case using r'(2) by simp
qed

lemma replace_at_container:
  "walk r ks = Inr t \<Longrightarrow> is_container t \<Longrightarrow> is_container t' \<Longrightarrow> is_container (replace_at r ks t')"
proof (cases ks)
  case Nil
  assume "is_container t'"
  then show ?thesis using Nil by simp
next
  case (Cons k ks')
  assume w: "walk r ks = Inr t" and t: "is_container t"
  have "is_container r" using w t by (rule walk_container)
  then show ?thesis using Cons
    by (auto split: sum.splits simp: set_prop_container)
qed

lemma walk_append:
  "walk r (ks @ [k]) = (case walk r ks of Inl e \<Rightarrow> Inl e | Inr t \<Rightarrow> get_prop t k)"
  by (induction ks arbitrary: r) (auto split: sum.splits)

section \<open>Reading while the root is absent\<close>

text \<open>
  C10. While the root value is the symbol \<open>none\<close>, \<open>Store.get\<close> returns
  \<open>none\<close> for every path, the non-empty ones too: it returns before the
  path is looked at, so it does not index into the absent root and does not
  throw.
\<close>

theorem get_none_root: "s_value s = NoneSym \<Longrightarrow> Store_get s p = Inr NoneSym"
  by (simp add: Store_get_def)

theorem get_none_root_witness:
  "s_value (Store_new NoneSym :: unit Store) = NoneSym \<and>
   Store_get (Store_new NoneSym :: unit Store) [KStr ''a'', KNum 3] = Inr NoneSym"
  using get_none_root [of "Store_new NoneSym :: unit Store" "[KStr ''a'', KNum 3]"]
  by (simp add: Store_new_def install_promised_def empty_store_def)

section \<open>Writes and the edition\<close>

lemmas store_defs =
  Store_new_def empty_store_def install_promised_def createPromised_def Store_set_def
  set_root_def set_nested_def afterSet_def DestroyedEdition_def RootPath_def Store_get_def
  Store_destroy_def obj_has_def obj_put_def obj_delete_def obj_in_def
  object_prototype_names_def Let_def

lemma afterSet_edition:
  "0 \<le> s_edition s \<Longrightarrow> s_edition (afterSet s a) = s_edition s + 1"
  by (simp add: afterSet_def DestroyedEdition_def)

lemma afterSet_value [simp]: "s_value (afterSet s a) = s_value s"
  by (simp add: afterSet_def)

lemma afterSet_promised [simp]: "s_promised (afterSet s a) = s_promised s"
  by (simp add: afterSet_def)

lemma Store_update_edition [simp]: "s_edition (Store_update f s ad) = s_edition s"
  by (simp add: Store_update_def split: prod.splits)

lemma Store_update_value [simp]: "s_value (Store_update f s ad) = s_value s"
  by (simp add: Store_update_def split: prod.splits)

lemma Store_update_promised [simp]: "s_promised (Store_update f s ad) = s_promised s"
  by (simp add: Store_update_def split: prod.splits)

lemma set_root_edition:
  "set_root s ad v m = Inr (s', ad') \<Longrightarrow> 0 \<le> s_edition s \<Longrightarrow> s_edition s' = s_edition s + 1"
  by (auto simp: set_root_def Let_def install_promised_def afterSet_def DestroyedEdition_def
        split: if_splits option.splits)

lemma set_root_read_back:
  "set_root s ad v m = Inr (s', ad') \<Longrightarrow> \<not> (is_object v \<and> promiseDetector v) \<Longrightarrow>
   Store_get s' [] = Inr v"
  by (auto simp: set_root_def Let_def Store_get_def install_promised_def
        split: if_splits option.splits)

lemma set_nested_edition:
  assumes "set_nested s ad v m = Inr (s', ad')" and "0 \<le> s_edition s" and "path ad \<noteq> []"
  shows "if deletes_absent_key s ad v then s' = s \<and> ad' = ad
         else s_edition s' = s_edition s + 1"
  using assms
  by (auto simp: set_nested_def deletes_absent_key_def Let_def afterSet_edition
        split: sum.splits bool.splits if_splits)

lemma Store_set_root:
  "Store_set s ad v m = Inr r \<Longrightarrow> path ad = [] \<Longrightarrow>
   set_root s ad v m = Inr r \<and> 0 \<le> s_edition s"
  by (auto simp: Store_set_def split: if_splits)

lemma Store_set_nested:
  "Store_set s ad v m = Inr r \<Longrightarrow> path ad \<noteq> [] \<Longrightarrow>
   set_nested s ad v m = Inr r \<and> 0 \<le> s_edition s"
  by (auto simp: Store_set_def split: if_splits)

text \<open>A successful nested write of a value other than \<open>none\<close> is read
  back, unless the inherited setter of \<open>__proto__\<close> took it.\<close>

lemma set_nested_read_back:
  assumes n: "set_nested s ad v m = Inr (s', ad')"
      and ne: "path ad \<noteq> []" and v: "v \<noteq> NoneSym"
      and np: "\<not> writes_inherited_proto s ad"
  shows "Store_get s' (path ad) = Inr v"
proof -
  obtain t b where t: "walk (s_value s) (butlast (path ad)) = Inr t"
    and b: "has_prop (last (path ad)) t = Inr b"
    using n by (auto simp: set_nested_def Let_def split: sum.splits)
  obtain t' where t': "set_prop t (last (path ad)) v = Inr t'"
    using n t b v
    by (auto simp: set_nested_def Let_def split: sum.splits bool.splits if_splits)
  let ?root = "replace_at (s_value s) (butlast (path ad)) t'"
  have tc: "is_container t" using b by (rule has_prop_container)
  have tc': "is_container t'" using t' by (rule set_prop_container)
  have val: "s_value s' = ?root"
    using n t b v t'
    by (auto simp: set_nested_def Let_def split: sum.splits bool.splits if_splits)
  have "is_container ?root"
    using t tc tc' by (rule replace_at_container)
  then have nn: "?root \<noteq> NoneSym" by auto
  have "\<not> inherited_proto t (last (path ad))"
    using np ne t by (simp add: writes_inherited_proto_def)
  then have g: "get_prop t' (last (path ad)) = Inr v"
    using t' get_set_prop by blast
  have w: "walk ?root (butlast (path ad)) = Inr t'"
    using t tc by (rule walk_replace_at)
  have "walk ?root (butlast (path ad) @ [last (path ad)]) = Inr v"
    using w g by (simp add: walk_append)
  then have "walk ?root (path ad) = Inr v"
    using ne by simp
  then show ?thesis using val nn by (simp add: Store_get_def)
qed

text \<open>
  C1, as the code has it. A successful \<open>set\<close> of \<open>v\<close> at a path followed
  by \<open>get\<close> of that path returns \<open>v\<close> when \<open>v\<close> is not promise-like,
  is not \<open>none\<close> written below the root, and the path does not end in the
  inherited accessor \<open>__proto__\<close> of a plain object; and a successful write
  raises the edition by exactly one unless it deletes a nested key that is
  absent (neither own nor inherited).
\<close>

theorem read_after_write:
  assumes "Store_set s ad v m = Inr (s', ad')"
  shows "(\<not> (is_object v \<and> promiseDetector v) \<and> (v = NoneSym \<longrightarrow> path ad = []) \<and>
          \<not> writes_inherited_proto s ad
            \<longrightarrow> Store_get s' (path ad) = Inr v) \<and>
         (\<not> deletes_absent_key s ad v \<longrightarrow> s_edition s' = s_edition s + 1)"
proof (cases "path ad = []")
  case True
  then have r: "set_root s ad v m = Inr (s', ad')" and e: "0 \<le> s_edition s"
    using assms Store_set_root by blast+
  have "\<not> (is_object v \<and> promiseDetector v) \<longrightarrow> Store_get s' (path ad) = Inr v"
    using set_root_read_back [OF r] True by simp
  then show ?thesis using set_root_edition [OF r e] by simp
next
  case False
  then have n: "set_nested s ad v m = Inr (s', ad')" and e: "0 \<le> s_edition s"
    using assms Store_set_nested by blast+
  show ?thesis
    using set_nested_read_back [OF n False] set_nested_edition [OF n e False] False
    by auto
qed

theorem read_after_write_witness:
  "Store_set (Store_new (Obj [(''a'', Num 1)]) :: unit Store)
     \<lparr> path = [KStr ''a''], actions = None \<rparr> (Num 7) Undefined =
   Inr (\<lparr> s_edition = 1, s_value = Obj [(''a'', Num 7)], s_promised = None,
          s_subscribers = [], s_setSubscribers = [], s_destroySubscribers = [], s_plugins = [],
          s_next_pid = 0, s_trace = [] \<rparr>,
        \<lparr> path = [KStr ''a''], actions = None \<rparr>) \<and>
   Store_get (\<lparr> s_edition = 1, s_value = Obj [(''a'', Num 7)], s_promised = None,
          s_subscribers = [], s_setSubscribers = [], s_destroySubscribers = [], s_plugins = [],
          s_next_pid = 0, s_trace = [] \<rparr> :: unit Store) [KStr ''a''] = Inr (Num 7) \<and>
   \<not> deletes_absent_key (Store_new (Obj [(''a'', Num 1)]) :: unit Store)
     \<lparr> path = [KStr ''a''], actions = None \<rparr> (Num 7) \<and>
   \<not> writes_inherited_proto (Store_new (Obj [(''a'', Num 1)]) :: unit Store)
     \<lparr> path = [KStr ''a''], actions = None \<rparr>"
proof -
  let ?s = "Store_new (Obj [(''a'', Num 1)]) :: unit Store"
  let ?ad = "\<lparr> path = [KStr ''a''], actions = None \<rparr>"
  let ?s' = "\<lparr> s_edition = 1, s_value = Obj [(''a'', Num 7)], s_promised = None,
          s_subscribers = [], s_setSubscribers = [], s_destroySubscribers = [], s_plugins = [],
          s_next_pid = 0, s_trace = [] \<rparr> :: unit Store"
  have h: "Store_set ?s ?ad (Num 7) Undefined = Inr (?s', ?ad)"
    by (simp add: store_defs)
  have d: "\<not> deletes_absent_key ?s ?ad (Num 7)"
    by (simp add: deletes_absent_key_def)
  have w: "\<not> writes_inherited_proto ?s ?ad"
    by (simp add: writes_inherited_proto_def store_defs)
  show ?thesis
    using read_after_write [OF h] h d w by simp
qed

text \<open>The claim as stated fails: after deleting the key \<open>a\<close> of \<open>{a: 1}\<close>
  with \<open>none\<close>, the read returns \<open>undefined\<close>, not \<open>none\<close>; and a root
  write of a promise is read back as \<open>none\<close>.\<close>

theorem read_after_write_counterexample:
  "set_then_get (Store_new (Obj [(''a'', Num 1)]) :: unit Store)
     \<lparr> path = [KStr ''a''], actions = None \<rparr> NoneSym Undefined = Inr Undefined \<and>
   set_then_get (Store_new (Num 1) :: unit Store)
     \<lparr> path = [], actions = None \<rparr> (PromiseLike 0) Undefined = Inr NoneSym"
  by (simp add: set_then_get_def store_defs)

text \<open>
  C2, as the code has it. A nested write that \<open>Store.set\<close> accepts raises
  the edition by exactly one in the update, delete and insert cases; when the
  key is absent (the parent has it neither as an own nor as an inherited
  property) and the value is \<open>none\<close> it returns the descriptor it was
  given and leaves the store, the edition too, as it was.
\<close>

theorem nested_write_edition:
  assumes "Store_set s ad v m = Inr (s', ad')" and "path ad \<noteq> []"
  shows "if deletes_absent_key s ad v then s' = s \<and> ad' = ad
         else s_edition s' = s_edition s + 1"
proof -
  have n: "set_nested s ad v m = Inr (s', ad')" and e: "0 \<le> s_edition s"
    using assms Store_set_nested by blast+
  show ?thesis using n e assms(2) by (rule set_nested_edition)
qed

theorem nested_write_edition_witness:
  "path \<lparr> path = [KStr ''a''], actions = None \<rparr> \<noteq> [] \<and>
   \<not> deletes_absent_key (Store_new (Obj [(''a'', Num 1)]) :: unit Store)
       \<lparr> path = [KStr ''a''], actions = None \<rparr> NoneSym \<and>
   Store_set (Store_new (Obj [(''a'', Num 1)]) :: unit Store)
     \<lparr> path = [KStr ''a''], actions = None \<rparr> NoneSym Undefined =
   Inr (\<lparr> s_edition = 1, s_value = Obj [], s_promised = None,
          s_subscribers = [], s_setSubscribers = [], s_destroySubscribers = [], s_plugins = [],
          s_next_pid = 0, s_trace = [] \<rparr>,
        \<lparr> path = [], actions = Some [(''a'', Del)] \<rparr>) \<and>
   s_edition (\<lparr> s_edition = 1, s_value = Obj [], s_promised = None,
          s_subscribers = [], s_setSubscribers = [], s_destroySubscribers = [], s_plugins = [],
          s_next_pid = 0, s_trace = [] \<rparr> :: unit Store) =
     s_edition (Store_new (Obj [(''a'', Num 1)]) :: unit Store) + 1"
proof -
  let ?s = "Store_new (Obj [(''a'', Num 1)]) :: unit Store"
  let ?ad = "\<lparr> path = [KStr ''a''], actions = None \<rparr>"
  let ?s' = "\<lparr> s_edition = 1, s_value = Obj [], s_promised = None,
          s_subscribers = [], s_setSubscribers = [], s_destroySubscribers = [], s_plugins = [],
          s_next_pid = 0, s_trace = [] \<rparr> :: unit Store"
  have h: "Store_set ?s ?ad NoneSym Undefined = Inr (?s', \<lparr> path = [], actions = Some [(''a'', Del)] \<rparr>)"
    by (simp add: store_defs)
  have p: "path ?ad \<noteq> []" by simp
  have d: "\<not> deletes_absent_key ?s ?ad NoneSym"
    by (simp add: deletes_absent_key_def store_defs)
  show ?thesis
    using nested_write_edition [OF h p] h d by simp
qed

text \<open>The claim as stated fails in its last case: deleting the absent key
  \<open>b\<close> of \<open>{a: 1}\<close> is accepted and the edition stays 0.\<close>

theorem nested_write_edition_counterexample:
  "Store_set (Store_new (Obj [(''a'', Num 1)]) :: unit Store)
     \<lparr> path = [KStr ''b''], actions = None \<rparr> NoneSym Undefined =
   Inr (Store_new (Obj [(''a'', Num 1)]), \<lparr> path = [KStr ''b''], actions = None \<rparr>) \<and>
   s_edition (Store_new (Obj [(''a'', Num 1)]) :: unit Store) = 0"
  by (simp add: store_defs)

text \<open>Inherited names. Deleting \<open>constructor\<close>, which \<open>{a: 1}\<close> inherits,
  takes the delete case and raises the edition; a primitive written to the
  inherited \<open>__proto__\<close> is taken by the setter, and the read returns the
  prototype.\<close>

lemma delete_inherited_key_example:
  "\<not> deletes_absent_key (Store_new (Obj [(''a'', Num 1)]) :: unit Store)
       \<lparr> path = [KStr ''constructor''], actions = None \<rparr> NoneSym \<and>
   Store_set (Store_new (Obj [(''a'', Num 1)]) :: unit Store)
     \<lparr> path = [KStr ''constructor''], actions = None \<rparr> NoneSym Undefined =
   Inr ((Store_new (Obj [(''a'', Num 1)]))\<lparr> s_edition := 1 \<rparr>,
        \<lparr> path = [], actions = Some [(''constructor'', Del)] \<rparr>)"
  by (simp add: deletes_absent_key_def store_defs)

lemma write_inherited_proto_example:
  "writes_inherited_proto (Store_new (Obj [(''a'', Num 1)]) :: unit Store)
     \<lparr> path = [KStr ''__proto__''], actions = None \<rparr> \<and>
   Store_set (Store_new (Obj [(''a'', Num 1)]) :: unit Store)
     \<lparr> path = [KStr ''__proto__''], actions = None \<rparr> (Num 7) Undefined =
   Inr ((Store_new (Obj [(''a'', Num 1)]))\<lparr> s_edition := 1 \<rparr>,
        \<lparr> path = [KStr ''__proto__''], actions = None \<rparr>) \<and>
   set_then_get (Store_new (Obj [(''a'', Num 1)]) :: unit Store)
     \<lparr> path = [KStr ''__proto__''], actions = None \<rparr> (Num 7) Undefined =
   Inr (Builtin ''__proto__'')"
  by (simp add: writes_inherited_proto_def set_then_get_def store_defs)

section \<open>Root writes while a value is pending\<close>

text \<open>
  C4, as the code has it. On a store that is not destroyed, a root write of
  a value that is neither \<open>none\<close> nor promise-like fails with
  \<open>SetStateWhenPromised\<close> exactly when a \<open>Promised\<close> exists that has no
  resolver (it was built from a source promise) and is not yet fulfilled;
  otherwise the write replaces the root value.
\<close>

theorem root_write_while_pending:
  assumes "path ad = []" and "v \<noteq> NoneSym" and "\<not> (is_object v \<and> promiseDetector v)"
      and "0 \<le> s_edition s"
  shows "(Store_set s ad v m = Inl (StateInvalidUsageError [] SetStateWhenPromised)
            \<longleftrightarrow> pending_with_source s) \<and>
         (\<not> pending_with_source s \<longrightarrow>
            (\<exists>s'. Store_set s ad v m = Inr (s', ad) \<and> s_value s' = v))"
  using assms
  by (auto simp: Store_set_def set_root_def Let_def pending_with_source_def
        split: option.splits)

theorem root_write_while_pending_witness:
  "pending_with_source (Store_new (PromiseLike 0) :: unit Store) \<and>
   Store_set (Store_new (PromiseLike 0) :: unit Store) \<lparr> path = [], actions = None \<rparr>
     (Num 5) Undefined = Inl (StateInvalidUsageError [] SetStateWhenPromised) \<and>
   \<not> pending_with_source (Store_new (Num 1) :: unit Store) \<and>
   (\<exists>s'. Store_set (Store_new (Num 1) :: unit Store) \<lparr> path = [], actions = None \<rparr>
            (Num 5) Undefined = Inr (s', \<lparr> path = [], actions = None \<rparr>) \<and>
         s_value s' = Num 5)"
proof -
  let ?ad = "\<lparr> path = [], actions = None \<rparr>"
  have p: "path ?ad = []" by simp
  have v: "Num 5 \<noteq> NoneSym" by simp
  have o: "\<not> (is_object (Num 5) \<and> promiseDetector (Num 5))" by simp
  have e1: "0 \<le> s_edition (Store_new (PromiseLike 0) :: unit Store)"
    by (simp add: store_defs)
  have e2: "0 \<le> s_edition (Store_new (Num 1) :: unit Store)"
    by (simp add: store_defs)
  have w1: "pending_with_source (Store_new (PromiseLike 0) :: unit Store)"
    by (simp add: pending_with_source_def store_defs)
  have w2: "\<not> pending_with_source (Store_new (Num 1) :: unit Store)"
    by (simp add: pending_with_source_def store_defs)
  show ?thesis
    using root_write_while_pending [OF p v o e1, of Undefined]
          root_write_while_pending [OF p v o e2, of Undefined] w1 w2
    by simp
qed

text \<open>The claim as stated fails: a store built from \<open>none\<close> holds a
  \<open>Promised\<close> without source promise that is not fulfilled, and the root
  write of 5 succeeds; a store built from a promise holds one with a source
  promise, and the same write fails.\<close>

theorem root_write_while_pending_counterexample:
  "pending_without_source (Store_new NoneSym :: unit Store) \<and>
   Store_set (Store_new NoneSym :: unit Store) \<lparr> path = [], actions = None \<rparr> (Num 5) Undefined =
   Inr (\<lparr> s_edition = 1, s_value = Num 5,
          s_promised = Some \<lparr> pid = 0, promise = None, fullfilled = False, p_error = None,
                              resolver = True \<rparr>,
          s_subscribers = [], s_setSubscribers = [], s_destroySubscribers = [], s_plugins = [],
          s_next_pid = 1, s_trace = [Resolve 0 (Num 5)] \<rparr>,
        \<lparr> path = [], actions = None \<rparr>) \<and>
   \<not> pending_without_source (Store_new (PromiseLike 0) :: unit Store) \<and>
   Store_set (Store_new (PromiseLike 0) :: unit Store) \<lparr> path = [], actions = None \<rparr>
     (Num 5) Undefined = Inl (StateInvalidUsageError [] SetStateWhenPromised)"
  by (simp add: pending_without_source_def store_defs)

section \<open>The root is absent only while a value is pending\<close>

lemma delete_key_container: "is_container t \<Longrightarrow> is_container (delete_key t k)"
  by (cases t; cases k) (auto split: option.splits)

lemma set_nested_container:
  assumes "set_nested s ad v m = Inr (s', ad')"
  shows "is_container (s_value s') \<and> s_promised s' = s_promised s"
proof -
  obtain t b where t: "walk (s_value s) (butlast (path ad)) = Inr t"
    and b: "has_prop (last (path ad)) t = Inr b"
    using assms by (auto simp: set_nested_def Let_def split: sum.splits)
  have tc: "is_container t" using b by (rule has_prop_container)
  have rc: "is_container (s_value s)" using t tc by (rule walk_container)
  have r: "\<And>t'. is_container t' \<Longrightarrow> is_container (replace_at (s_value s) (butlast (path ad)) t')"
    using t tc by (rule replace_at_container)
  have u: "is_container (replace_at (s_value s) (butlast (path ad)) t')"
    if "set_prop t (last (path ad)) v = Inr t'" for t'
    by (rule r) (use that set_prop_container in blast)
  have d: "is_container (replace_at (s_value s) (butlast (path ad))
              (delete_key t (last (path ad))))"
    by (rule r) (simp add: tc delete_key_container)
  show ?thesis
    using assms t b rc u d
    by (auto simp: set_nested_def Let_def split: sum.splits bool.splits if_splits)
qed

lemma Store_set_edition_ge:
  "Store_set s ad v m = Inr (s', ad') \<Longrightarrow> 0 \<le> s_edition s'"
  by (auto simp: Store_set_def set_root_def set_nested_def Let_def afterSet_def install_promised_def
        DestroyedEdition_def
        split: if_splits option.splits sum.splits bool.splits)

lemma set_root_inv:
  "set_root s ad v m = Inr (s', ad') \<Longrightarrow> absent_implies_pending s'"
  by (auto simp: set_root_def Let_def absent_implies_pending_def install_promised_def
        split: if_splits option.splits)

lemma Store_set_inv:
  assumes "Store_set s ad v m = Inr (s', ad')"
  shows "absent_implies_pending s'"
proof (cases "path ad = []")
  case True
  then have "set_root s ad v m = Inr (s', ad')"
    using assms Store_set_root by blast
  then show ?thesis by (rule set_root_inv)
next
  case False
  then have "set_nested s ad v m = Inr (s', ad')"
    using assms Store_set_nested by blast
  then have "is_container (s_value s')" using set_nested_container by blast
  then show ?thesis by (auto simp: absent_implies_pending_def)
qed

lemma Store_set_root_no_pending:
  "0 \<le> s_edition s \<Longrightarrow> s_promised s = None \<Longrightarrow>
   \<exists>s'. Store_set s \<lparr> path = RootPath, actions = None \<rparr> r m =
          Inr (s', \<lparr> path = RootPath, actions = None \<rparr>)"
  by (simp add: Store_set_def set_root_def Let_def RootPath_def split: prod.splits)

lemma update_inv [simp]:
  "absent_implies_pending (Store_update f s ad) = absent_implies_pending s"
  by (simp add: absent_implies_pending_def)

lemma promise_then_inv:
  assumes "store_inv s"
  shows "store_inv (promise_then f s i r)"
proof (cases "s_promised s")
  case None
  then show ?thesis using assms by (simp add: promise_then_def)
next
  case (Some pr)
  let ?s1 = "s\<lparr> s_promised := Some (pr\<lparr> fullfilled := True \<rparr>) \<rparr>"
  let ?s2 = "?s1\<lparr> s_promised := None \<rparr>"
  have i1: "store_inv ?s1"
    using assms by (simp add: store_inv_def absent_implies_pending_def)
  show ?thesis
  proof (cases "pid pr = i \<and> \<not> resolver pr \<and> s_edition s \<noteq> DestroyedEdition")
    case False
    then show ?thesis using Some assms i1 by (auto simp: promise_then_def Let_def)
  next
    case True
    then have e: "0 \<le> s_edition ?s2"
      using assms by (simp add: store_inv_def DestroyedEdition_def)
    obtain s' where s': "Store_set ?s2 \<lparr> path = RootPath, actions = None \<rparr> r Undefined
        = Inr (s', \<lparr> path = RootPath, actions = None \<rparr>)"
      using Store_set_root_no_pending [OF e] by auto
    have "absent_implies_pending s'" using s' by (rule Store_set_inv)
    moreover have "0 \<le> s_edition s'" using s' by (rule Store_set_edition_ge)
    ultimately show ?thesis
      using Some True s' by (simp add: promise_then_def Let_def store_inv_def)
  qed
qed

lemma step_inv:
  assumes "store_inv s"
  shows "store_inv (step f s x)"
proof (cases x)
  case (OpSet ad v m)
  show ?thesis
  proof (cases "Store_set s ad v m")
    case (Inl e)
    then show ?thesis using OpSet assms by simp
  next
    case (Inr r)
    obtain s' ad' where r: "r = (s', ad')" by (cases r)
    have "absent_implies_pending s'" using Inr r Store_set_inv by blast
    moreover have "0 \<le> s_edition s'" using Inr r Store_set_edition_ge by blast
    ultimately show ?thesis using OpSet Inr r by (simp add: store_inv_def)
  qed
next
  case (OpThen i r)
  then show ?thesis using assms promise_then_inv by simp
next
  case (OpCatch i err)
  then show ?thesis using assms
    by (auto simp: promise_catch_def Let_def store_inv_def absent_implies_pending_def
          split: option.splits)
next
  case OpDestroy
  then show ?thesis using assms
    by (simp add: Store_destroy_def store_inv_def absent_implies_pending_def DestroyedEdition_def)
qed

lemma run_inv: "store_inv s \<Longrightarrow> store_inv (run f s xs)"
  by (induction xs arbitrary: s) (auto simp: step_inv)

lemma Store_new_inv: "store_inv (Store_new v)"
  by (simp add: Store_new_def store_inv_def absent_implies_pending_def install_promised_def
        empty_store_def)

text \<open>
  C3, as the code has it. Whenever the root value is \<open>none\<close> the
  \<open>Promised\<close> wrapper is defined: this holds at construction, is kept by
  every operation (root write, nested write, the two settlements of a promise,
  destroy) on a store whose edition is at least the destroyed one, and so
  holds after every run of operations on a new store.
\<close>

theorem absent_root_is_pending:
  "absent_implies_pending (Store_new v) \<and>
   (- 1 \<le> s_edition s \<and> absent_implies_pending s \<longrightarrow> absent_implies_pending (step f s x)) \<and>
   absent_implies_pending (run f (Store_new v) xs)"
  using Store_new_inv [of v] step_inv [of s f x] run_inv [OF Store_new_inv, of f v xs]
  by (auto simp: store_inv_def)

theorem absent_root_is_pending_witness:
  "s_value (Store_new NoneSym :: unit Store) = NoneSym \<and>
   s_promised (Store_new NoneSym :: unit Store) \<noteq> None \<and>
   - 1 \<le> s_edition (Store_new (Num 1) :: unit Store) \<and>
   absent_implies_pending (Store_new (Num 1) :: unit Store) \<and>
   s_value (step no_subscriber (Store_new (Num 1))
              (OpSet \<lparr> path = [], actions = None \<rparr> NoneSym Undefined)) = NoneSym \<and>
   s_promised (step no_subscriber (Store_new (Num 1))
              (OpSet \<lparr> path = [], actions = None \<rparr> NoneSym Undefined)) \<noteq> None \<and>
   s_value (run no_subscriber (Store_new NoneSym)
              [OpSet \<lparr> path = [], actions = None \<rparr> (PromiseLike 3) Undefined,
               OpCatch 1 (Str ''failed'')]) = NoneSym \<and>
   s_promised (run no_subscriber (Store_new NoneSym)
              [OpSet \<lparr> path = [], actions = None \<rparr> (PromiseLike 3) Undefined,
               OpCatch 1 (Str ''failed'')]) \<noteq> None"
proof -
  let ?x = "OpSet \<lparr> path = [], actions = None \<rparr> NoneSym Undefined"
  let ?xs = "[OpSet \<lparr> path = [], actions = None \<rparr> (PromiseLike 3) Undefined,
               OpCatch 1 (Str ''failed'')]"
  have a: "s_value (Store_new NoneSym :: unit Store) = NoneSym"
    by (simp add: store_defs)
  have b: "- 1 \<le> s_edition (Store_new (Num 1) :: unit Store)"
    by (simp add: store_defs)
  have c: "s_value (step no_subscriber (Store_new (Num 1)) ?x) = NoneSym"
    by (simp add: store_defs)
  have d: "s_value (run no_subscriber (Store_new NoneSym) ?xs) = NoneSym"
    by (simp add: store_defs promise_catch_def)
  have e: "absent_implies_pending (Store_new (Num 1) :: unit Store)"
    by (simp add: absent_implies_pending_def store_defs)
  show ?thesis
    using absent_root_is_pending [of NoneSym "Store_new (Num 1) :: unit Store" no_subscriber ?x ?xs]
          a b c d e
    unfolding absent_implies_pending_def by blast
qed

text \<open>The claim as stated fails in the other direction: on a store built
  from \<open>none\<close>, the root write of 5 leaves the root present and the
  \<open>Promised\<close> defined.\<close>

theorem absent_iff_pending_counterexample:
  "absent_iff_pending (Store_new NoneSym :: unit Store) \<and>
   \<not> absent_iff_pending
       (step no_subscriber (Store_new NoneSym)
          (OpSet \<lparr> path = [], actions = None \<rparr> (Num 5) Undefined))"
  by (simp add: absent_iff_pending_def store_defs)

section \<open>Notification\<close>

lemma fold_set_add_distinct: "distinct acts \<Longrightarrow> distinct (fold set_add xs acts)"
  by (induction xs arbitrary: acts) (auto simp: set_add_def)

lemma fold_set_add_set: "set (fold set_add xs acts) = set acts \<union> set xs"
  by (induction xs arbitrary: acts) (auto simp: set_add_def)

text \<open>One pass over the subscribers notifies each of them once, in order.\<close>

lemma notify_subscribers_eq:
  "notify_subscribers f ad i ss acts =
     (map (\<lambda>s. fst (f s ad)) ss, fold set_add (added f ad ss) acts,
      map (\<lambda>j. Notify j ad) [i ..< i + length ss])"
proof (induction ss arbitrary: i acts)
  case Nil
  then show ?case by simp
next
  case (Cons s ss)
  have "i < i + length (s # ss)" by simp
  then have "[i ..< i + length (s # ss)] = i # [Suc i ..< Suc i + length ss]"
    using upt_conv_Cons [of i "i + length (s # ss)"] by simp
  then show ?case
    using Cons.IH by (simp add: split_beta)
qed

lemma notify_keys_eq:
  "\<exists>ss'. notify_keys f p ks ss acts =
     (ss', fold set_add (added_keys f p ks ss) acts,
      concat (map (\<lambda>k. map (\<lambda>i. Notify i \<lparr> path = p @ [KStr k], actions = None \<rparr>)
                            [0 ..< length ss]) ks))"
proof (induction ks arbitrary: ss acts)
  case Nil
  then show ?case by simp
next
  case (Cons k ks)
  let ?ad = "\<lparr> path = p @ [KStr k], actions = None \<rparr>"
  let ?ss1 = "map (\<lambda>s. fst (f s ?ad)) ss"
  obtain ss' where "notify_keys f p ks ?ss1 (fold set_add (added f ?ad ss) acts) =
     (ss', fold set_add (added_keys f p ks ?ss1) (fold set_add (added f ?ad ss) acts),
      concat (map (\<lambda>k. map (\<lambda>i. Notify i \<lparr> path = p @ [KStr k], actions = None \<rparr>)
                            [0 ..< length ?ss1]) ks))"
    using Cons.IH by blast
  then show ?case
    by (simp add: notify_subscribers_eq)
qed

lemma all_update_Some:
  "all_update ad \<Longrightarrow> \<exists>am. actions ad = Some am \<and> list_all (\<lambda>a. a = Upd) (map snd am)"
  by (auto simp: all_update_def split: option.splits)

lemma fan_out_eq:
  "\<exists>ss'. fan_out f ss ad =
     (ss', fold set_add (added_all f ss ad) [], notifications (length ss) ad)"
proof (cases "all_update ad")
  case True
  then obtain am where am: "actions ad = Some am" "list_all (\<lambda>a. a = Upd) (map snd am)"
    using all_update_Some by blast
  show ?thesis
    using notify_keys_eq [of f "path ad" "map fst am" ss "[]"] True am
    by (simp add: fan_out_def added_all_def notifications_def action_keys_def)
next
  case False
  then show ?thesis
    by (auto simp: fan_out_def added_all_def notifications_def all_update_def
          notify_subscribers_eq split: option.splits)
qed

text \<open>
  C6. \<open>Store.update\<close> first notifies: when the descriptor has an action map
  whose actions are all updates, every subscriber gets one single-key
  descriptor per key, the path extended by the key; otherwise every subscriber
  gets the descriptor as it is. Only then, after all notifications, it calls
  the collected rerender callbacks, each one exactly once: they are the
  callbacks the subscribers added, without repetition.
\<close>

theorem update_notifies_then_rerenders:
  "\<exists>acts. s_trace (Store_update f s ad) =
            s_trace s @ notifications (length (s_subscribers s)) ad @ map Rerender acts \<and>
          distinct acts \<and> set acts = set (added_all f (s_subscribers s) ad)"
proof -
  obtain ss' where "fan_out f (s_subscribers s) ad =
     (ss', fold set_add (added_all f (s_subscribers s) ad) [],
      notifications (length (s_subscribers s)) ad)"
    using fan_out_eq by blast
  then have "s_trace (Store_update f s ad) =
            s_trace s @ notifications (length (s_subscribers s)) ad @
            map Rerender (fold set_add (added_all f (s_subscribers s) ad) [])"
    by (simp add: Store_update_def)
  moreover have "distinct (fold set_add (added_all f (s_subscribers s) ad) [])"
    by (simp add: fold_set_add_distinct)
  moreover have "set (fold set_add (added_all f (s_subscribers s) ad) []) =
      set (added_all f (s_subscribers s) ad)"
    by (simp add: fold_set_add_set)
  ultimately show ?thesis by blast
qed

theorem update_notifies_then_rerenders_witness:
  "s_trace (Store_update fixed_subscriber
      ((Store_new (Obj [(''a'', Num 1), (''b'', Num 2)]))\<lparr> s_subscribers := [[1, 2], [2, 3]] \<rparr>)
      \<lparr> path = [], actions = Some [(''a'', Upd), (''b'', Upd)] \<rparr>) =
   [Notify 0 \<lparr> path = [KStr ''a''], actions = None \<rparr>,
    Notify 1 \<lparr> path = [KStr ''a''], actions = None \<rparr>,
    Notify 0 \<lparr> path = [KStr ''b''], actions = None \<rparr>,
    Notify 1 \<lparr> path = [KStr ''b''], actions = None \<rparr>,
    Rerender 1, Rerender 2, Rerender 3] \<and>
   s_trace (Store_update fixed_subscriber
      ((Store_new (Obj [(''a'', Num 1), (''b'', Num 2)]))\<lparr> s_subscribers := [[1, 2], [2, 3]] \<rparr>)
      \<lparr> path = [], actions = Some [(''a'', Upd), (''c'', Ins)] \<rparr>) =
   [Notify 0 \<lparr> path = [], actions = Some [(''a'', Upd), (''c'', Ins)] \<rparr>,
    Notify 1 \<lparr> path = [], actions = Some [(''a'', Upd), (''c'', Ins)] \<rparr>,
    Rerender 1, Rerender 2, Rerender 3]"
  using update_notifies_then_rerenders [of fixed_subscriber
      "(Store_new (Obj [(''a'', Num 1), (''b'', Num 2)]))\<lparr> s_subscribers := [[1, 2], [2, 3]] \<rparr>"
      "\<lparr> path = [], actions = Some [(''a'', Upd), (''b'', Upd)] \<rparr>"]
  by (simp add: Store_update_def fan_out_def fixed_subscriber_def set_add_def store_defs)

section \<open>Merging into an object\<close>

lemmas node_setters =
  set_valueSource_def set_valueEdition_def set_downgraded_def set_childrenUsed_def
  set_selfUsed_def set_valueUsed_def set_subscribers_def

lemma refresh_fields:
  assumes "refresh s n = Inr n1"
  shows "n_path n1 = n_path n"
    and "valueSource n1 = (if valueEdition n \<noteq> s_edition s
                            then (case Store_get s (n_path n) of Inr v \<Rightarrow> v | Inl e \<Rightarrow> Undefined)
                            else valueSource n)"
  using assms
  by (auto simp: refresh_def Let_def mark_used_def node_setters split: if_splits sum.splits)

lemma getUntracked_in_sync:
  assumes g: "Store_get s (n_path n) = Inr v" and v: "a \<or> v \<noteq> NoneSym"
      and sync: "valueEdition n = s_edition s \<longrightarrow> valueSource n = v"
  shows "\<exists>n1. getUntracked s n a = Inr (n1, v) \<and> n_path n1 = n_path n"
proof -
  have "\<exists>n1. refresh s n = Inr n1"
    using g by (simp add: refresh_def Let_def)
  then obtain n1 where r: "refresh s n = Inr n1" by blast
  have "valueSource n1 = v" using refresh_fields(2) [OF r] g sync by auto
  moreover have "n_path n1 = n_path n" using refresh_fields(1) [OF r] .
  ultimately show ?thesis using r v by (auto simp: getUntracked_def)
qed

text \<open>A container that is read under a key is an own property there.\<close>

lemma own_not_inherited:
  "get_prop t k = Inr c \<Longrightarrow> is_container c \<Longrightarrow> \<not> inherited_proto t k"
  by (cases t) (auto simp: obj_has_def split: option.splits if_splits)

lemma walk_last:
  assumes w: "walk r p = Inr c" and ne: "p \<noteq> []"
  obtains t where "walk r (butlast p) = Inr t" and "get_prop t (last p) = Inr c"
proof -
  have p: "p = butlast p @ [last p]" using ne by simp
  have "(case walk r (butlast p) of Inl e \<Rightarrow> Inl e | Inr t \<Rightarrow> get_prop t (last p)) = Inr c"
    using w p walk_append [of r "butlast p" "last p"] by simp
  then show ?thesis using that by (auto split: sum.splits)
qed

text \<open>A value other than \<open>none\<close> that is no promise can be written where a
  container is.\<close>

lemma Store_set_over_container:
  assumes w: "walk (s_value s) p = Inr c" and c: "is_container c" and ne: "p \<noteq> []"
      and e: "0 \<le> s_edition s" and v: "v \<noteq> NoneSym" "\<not> (is_object v \<and> promiseDetector v)"
  shows "\<exists>s' ad'. Store_set s \<lparr> path = p, actions = None \<rparr> v m = Inr (s', ad')"
proof -
  obtain t where t: "walk (s_value s) (butlast p) = Inr t"
    and g: "get_prop t (last p) = Inr c"
    using w ne by (rule walk_last)
  have "is_container t" using g c by (rule get_prop_container)
  then obtain b where b: "has_prop (last p) t = Inr b"
    using get_prop_has_prop [OF g] by blast
  obtain t' where t': "set_prop t (last p) v = Inr t'"
    using set_own [OF g c] by blast
  show ?thesis
    using t g b t' ne e v
    by (cases b) (auto simp: Store_set_def set_nested_def Let_def)
qed

text \<open>An array or a plain object that is written where a container is, is
  read back, one edition later; the set callbacks are called once each.\<close>

lemma written_container_read_back:
  assumes s': "Store_set s ad v m = Inr (s', ad')" and c: "is_container v"
      and w: "walk (s_value s) (path ad) = Inr c0" and c0: "is_container c0"
  shows "Store_get s' (path ad) = Inr v \<and> s_edition s' = s_edition s + 1"
proof (cases "path ad = []")
  case True
  then have r: "set_root s ad v m = Inr (s', ad')" and e: "0 \<le> s_edition s"
    using s' Store_set_root by blast+
  have "\<not> (is_object v \<and> promiseDetector v)" using c by (cases v) auto
  then show ?thesis
    using set_root_read_back [OF r] set_root_edition [OF r e] True by simp
next
  case False
  then have n: "set_nested s ad v m = Inr (s', ad')" and e: "0 \<le> s_edition s"
    using s' Store_set_nested by blast+
  have v: "v \<noteq> NoneSym" using c by auto
  then have d: "\<not> deletes_absent_key s ad v" by (simp add: deletes_absent_key_def)
  obtain t where t: "walk (s_value s) (butlast (path ad)) = Inr t"
    and g: "get_prop t (last (path ad)) = Inr c0"
    using w False by (rule walk_last)
  have "\<not> inherited_proto t (last (path ad))" using g c0 by (rule own_not_inherited)
  then have np: "\<not> writes_inherited_proto s ad"
    using t by (simp add: writes_inherited_proto_def)
  show ?thesis
    using set_nested_read_back [OF n False v np] set_nested_edition [OF n e False] d by simp
qed

lemma written_container_trace:
  assumes s': "Store_set s ad v m = Inr (s', ad')" and c: "is_container v"
      and w: "walk (s_value s) (path ad) = Inr c0" and c0: "is_container c0"
  shows "\<exists>arg. s_trace s' = s_trace s @ map (\<lambda>cb. OnSet cb arg) (s_setSubscribers s) \<and>
               arg_path arg = path ad \<and> arg_value arg = Some v \<and> arg_merged arg = m"
proof (cases "path ad = []")
  case True
  then have r: "set_root s ad v m = Inr (s', ad')" and e: "0 \<le> s_edition s"
    using s' Store_set_root by blast+
  have p: "\<not> (is_object v \<and> promiseDetector v)" "v \<noteq> NoneSym" using c by (cases v; simp)+
  have "s_value s \<noteq> NoneSym" using w True c0 by auto
  then show ?thesis
    using r e p
    by (auto simp: set_root_def Let_def afterSet_def DestroyedEdition_def
          split: if_splits option.splits)
next
  case False
  then have n: "set_nested s ad v m = Inr (s', ad')" and e: "0 \<le> s_edition s"
    using s' Store_set_nested by blast+
  have v: "v \<noteq> NoneSym" using c by auto
  show ?thesis
    using n e v
    by (auto simp: set_nested_def Let_def afterSet_def DestroyedEdition_def
          split: sum.splits bool.splits if_splits)
qed

text \<open>Assignment to an own or new property of an object.\<close>

lemma map_fst_obj_replace [simp]: "map fst (obj_replace n v kvs) = map fst kvs"
  by (induction kvs) auto

lemma set_obj_insert [simp]: "fst ` set (obj_insert n v kvs) = insert n (fst ` set kvs)"
  by (induction n v kvs rule: obj_insert.induct)
     (simp_all del: goes_before.simps add: insert_commute)

lemma distinct_obj_insert:
  "n \<notin> set (map fst kvs) \<Longrightarrow> distinct (map fst kvs) \<Longrightarrow> distinct (map fst (obj_insert n v kvs))"
  by (induction n v kvs rule: obj_insert.induct) (auto simp del: goes_before.simps)

lemma distinct_obj_put:
  "distinct (map fst kvs) \<Longrightarrow> distinct (map fst (obj_put kvs n v))"
  by (auto simp: obj_put_def obj_has_def distinct_obj_insert map_of_eq_None_iff)

lemma distinct_obj_delete:
  "distinct (map fst kvs) \<Longrightarrow> distinct (map fst (obj_delete kvs n))"
  by (simp add: obj_delete_def distinct_map_filter)

lemma set_prop_object:
  assumes "k \<noteq> ''__proto__''"
  shows "\<exists>c'. set_prop (Obj c) (KStr k) v = Inr (Obj c') \<and> map_of c' = (map_of c)(k \<mapsto> v) \<and>
              (distinct (map fst c) \<longrightarrow> distinct (map fst c'))"
  using assms
  by (auto simp: obj_has_def map_of_obj_replace map_of_obj_insert distinct_obj_insert
        map_of_eq_None_iff)

text \<open>The loop over the keys of the source: every key is handled once, as
  the specification says.\<close>

lemma merged_value_src:
  "map_of src j \<noteq> None \<Longrightarrow> merged_value c' src j = merged_value c src j"
  by (auto simp: merged_value_def)

lemma merged_action_same:
  "map_of c' j = map_of c j \<Longrightarrow> merged_action c' src j = merged_action c src j"
  by (auto simp: merged_action_def obj_in_def obj_has_def split: option.splits)

lemma merge_keys_delete:
  "map_of src k = Some NoneSym \<Longrightarrow> k \<noteq> ''__proto__'' \<Longrightarrow>
   merge_keys (Obj src) (k # ks) (Obj c, am) =
   merge_keys (Obj src) ks (Obj (obj_delete c k), obj_put am k Del)"
  by (simp add: actions_put_def)

lemma merge_keys_assign:
  "map_of src k = Some v \<Longrightarrow> v \<noteq> NoneSym \<Longrightarrow> k \<noteq> ''__proto__'' \<Longrightarrow>
   set_prop (Obj c) (KStr k) v = Inr (Obj c') \<Longrightarrow>
   merge_keys (Obj src) (k # ks) (Obj c, am) =
   merge_keys (Obj src) ks (Obj c', obj_put am k (if obj_in c k then Upd else Ins))"
  by (simp add: actions_put_def del: set_prop.simps)

lemma merge_keys_object:
  assumes "distinct ks" and "\<forall>k \<in> set ks. map_of src k \<noteq> None" and "''__proto__'' \<notin> set ks"
  shows "\<exists>r am'. merge_keys (Obj src) ks (Obj c, am) = Inr (Obj r, am') \<and>
           (\<forall>k. map_of r k = (if k \<in> set ks then merged_value c src k else map_of c k)) \<and>
           (\<forall>k. map_of am' k = (if k \<in> set ks then merged_action c src k else map_of am k)) \<and>
           (distinct (map fst c) \<longrightarrow> distinct (map fst r)) \<and>
           (distinct (map fst am) \<longrightarrow> distinct (map fst am'))"
  using assms
proof (induction ks arbitrary: c am)
  case Nil
  then show ?case by simp
next
  case (Cons k ks)
  obtain v where v: "map_of src k = Some v" using Cons.prems by auto
  have k: "k \<noteq> ''__proto__''" "k \<notin> set ks" using Cons.prems by auto
  have ks: "distinct ks" "\<forall>k \<in> set ks. map_of src k \<noteq> None" "''__proto__'' \<notin> set ks"
    using Cons.prems by auto
  define c1 where "c1 = (if v = NoneSym then obj_delete c k
                         else if obj_has c k then obj_replace k v c else obj_insert k v c)"
  define am1 where
    "am1 = obj_put am k (if v = NoneSym then Del else if obj_in c k then Upd else Ins)"
  have c1_map: "map_of c1 = (if v = NoneSym then (map_of c)(k := None) else (map_of c)(k \<mapsto> v))"
    by (simp add: c1_def map_of_obj_delete map_of_obj_replace map_of_obj_insert obj_has_def)
  have c1_dist: "distinct (map fst c) \<longrightarrow> distinct (map fst c1)"
    by (simp add: c1_def distinct_obj_delete distinct_obj_insert obj_has_def map_of_eq_None_iff)
  have am1_dist: "distinct (map fst am) \<longrightarrow> distinct (map fst am1)"
    by (simp add: am1_def distinct_obj_put)
  have am1_map: "map_of am1 = (map_of am)(k \<mapsto> the (merged_action c src k))"
    using v by (simp add: am1_def map_of_obj_put merged_action_def)
  have step: "merge_keys (Obj src) (k # ks) (Obj c, am) = merge_keys (Obj src) ks (Obj c1, am1)"
  proof (cases "v = NoneSym")
    case True
    then show ?thesis
      using merge_keys_delete [of src k ks c am] v k(1) by (simp add: c1_def am1_def)
  next
    case False
    have "set_prop (Obj c) (KStr k) v = Inr (Obj c1)"
      using False k(1) by (simp add: c1_def)
    then show ?thesis
      using merge_keys_assign [OF v False k(1), of c c1 ks am] False by (simp add: am1_def)
  qed
  obtain r am' where r: "merge_keys (Obj src) ks (Obj c1, am1) = Inr (Obj r, am')"
    and rv: "\<forall>j. map_of r j = (if j \<in> set ks then merged_value c1 src j else map_of c1 j)"
    and ra: "\<forall>j. map_of am' j = (if j \<in> set ks then merged_action c1 src j else map_of am1 j)"
    and rd: "distinct (map fst c1) \<longrightarrow> distinct (map fst r)"
    and ad: "distinct (map fst am1) \<longrightarrow> distinct (map fst am')"
    using Cons.IH [OF ks, of c1 am1] by blast
  have a: "map_of r j = (if j \<in> set (k # ks) then merged_value c src j else map_of c j)" for j
  proof (cases "j \<in> set ks")
    case True
    then have "map_of src j \<noteq> None" using ks(2) by blast
    then have "merged_value c1 src j = merged_value c src j" by (rule merged_value_src)
    then show ?thesis using rv True by simp
  next
    case False
    then have "map_of r j = map_of c1 j" using rv by simp
    then show ?thesis using False v by (simp add: c1_map merged_value_def)
  qed
  have b: "map_of am' j = (if j \<in> set (k # ks) then merged_action c src j else map_of am j)" for j
  proof (cases "j \<in> set ks")
    case True
    then have "j \<noteq> k" using k(2) by blast
    then have "map_of c1 j = map_of c j" by (simp add: c1_map)
    then have "merged_action c1 src j = merged_action c src j" by (rule merged_action_same)
    then show ?thesis using ra True by simp
  next
    case False
    then have "map_of am' j = map_of am1 j" using ra by simp
    then show ?thesis using False v by (simp add: am1_map merged_action_def)
  qed
  have "merge_keys (Obj src) (k # ks) (Obj c, am) = Inr (Obj r, am')"
    using step r by (simp del: merge_keys.simps)
  moreover have "distinct (map fst c) \<longrightarrow> distinct (map fst r)" using c1_dist rd by blast
  moreover have "distinct (map fst am) \<longrightarrow> distinct (map fst am')" using am1_dist ad by blast
  ultimately show ?case using a b by blast
qed

lemma merge_keys_all:
  assumes d: "distinct (map fst src)" and p: "''__proto__'' \<notin> fst ` set src"
  shows "\<exists>r am. merge_keys (Obj src) (map fst src) (Obj c, []) = Inr (Obj r, am) \<and>
           (\<forall>k. map_of r k = merged_value c src k) \<and>
           (\<forall>k. map_of am k = merged_action c src k) \<and>
           (distinct (map fst c) \<longrightarrow> distinct (map fst r)) \<and>
           distinct (map fst am) \<and> (src \<noteq> [] \<longrightarrow> am \<noteq> [])"
proof -
  have in_src: "map_of src k \<noteq> None \<longleftrightarrow> k \<in> set (map fst src)" for k
    by (simp add: map_of_eq_None_iff)
  then have all: "\<forall>k \<in> set (map fst src). map_of src k \<noteq> None" by blast
  have p': "''__proto__'' \<notin> set (map fst src)" using p by simp
  obtain r am where r: "merge_keys (Obj src) (map fst src) (Obj c, []) = Inr (Obj r, am)"
    and rv: "\<forall>k. map_of r k = (if k \<in> set (map fst src) then merged_value c src k else map_of c k)"
    and ra: "\<forall>k. map_of am k =
               (if k \<in> set (map fst src) then merged_action c src k else map_of [] k)"
    and rd: "distinct (map fst c) \<longrightarrow> distinct (map fst r)"
    and ad: "distinct (map fst ([] :: (string \<times> action) list)) \<longrightarrow> distinct (map fst am)"
    using merge_keys_object [OF d all p', of c "[]"] by blast
  have a: "map_of r k = merged_value c src k" for k
  proof (cases "k \<in> set (map fst src)")
    case True
    then show ?thesis using rv by simp
  next
    case False
    then have "map_of src k = None" using in_src by blast
    then show ?thesis using rv False by (simp add: merged_value_def)
  qed
  have b: "map_of am k = merged_action c src k" for k
  proof (cases "k \<in> set (map fst src)")
    case True
    then show ?thesis using ra by simp
  next
    case False
    then have "map_of src k = None" using in_src by blast
    then show ?thesis using ra False by (simp add: merged_action_def)
  qed
  have ne: "am \<noteq> []" if nonempty: "src \<noteq> []"
  proof -
    obtain k v rest where "src = (k, v) # rest" using nonempty by (cases src) auto
    then have "map_of src k = Some v" by simp
    then have "map_of am k \<noteq> None" using b by (simp add: merged_action_def)
    then show ?thesis by auto
  qed
  show ?thesis using r a b rd ad ne by auto
qed

text \<open>The example of the specification.\<close>

lemma merge_example_keys:
  "merge_keys (Obj [(''a'', Num 5), (''b'', NoneSym)]) [''a'', ''b'']
     (Obj [(''a'', Num 1), (''b'', Num 2)], []) =
   Inr (Obj [(''a'', Num 5)], [(''a'', Upd), (''b'', Del)])"
  by (simp add: obj_put_def obj_has_def obj_delete_def actions_put_def obj_in_def
        object_prototype_names_def index_of_name_def is_index_name_def to_number_def
        digit_val_def)

text \<open>
  C7, as the code has it. On a state whose value is an object, at the root
  or below it, the merge of a keyed object without keys changes nothing and
  returns no descriptor. The merge of a keyed object with at least one key makes
  one write: it returns one descriptor, for the path of the state, whose action
  map has exactly the keys of the source, a key with the delete sentinel tagged
  as a delete, a key the state had as an update and a new key as an insert; the
  value read at that path afterwards has the keys of the source set or removed
  and the other keys unchanged; every set callback was called once, with the
  merged object as new value and the source as merge value; and the edition has
  gone up by exactly one, also after the notification that \<open>merge\<close> makes
  with that descriptor. For \<open>merge({a: 5, b: none})\<close> on \<open>{a: 1, b: 2}\<close>
  the value is \<open>{a: 5}\<close> and the action map \<open>{a: "U", b: "D"}\<close>. The store
  is not destroyed and does not wait for a source promise; the cache of the node
  is stale or holds the store's value; the source has no own key
  \<open>__proto__\<close>.
\<close>

theorem merge_object:
  assumes g: "Store_get s (n_path n) = Inr (Obj cur)"
      and sync: "valueEdition n = s_edition s \<longrightarrow> valueSource n = Obj cur"
      and e: "0 \<le> s_edition s" and np: "\<not> pending_with_source s"
      and d: "distinct (map fst src)" and pr: "''__proto__'' \<notin> fst ` set src"
  shows "(src = [] \<longrightarrow>
           (\<exists>n'. mergeUntrackedV4 s n (Value (Obj src)) = Inr (s, n', None) \<and>
                 node_merge f s n (Value (Obj src)) = Inr (s, n'))) \<and>
         (src \<noteq> [] \<longrightarrow>
           (\<exists>s' n' r am arg.
              mergeUntrackedV4 s n (Value (Obj src)) =
                Inr (s', n', Some \<lparr> path = n_path n, actions = Some am \<rparr>) \<and>
              node_merge f s n (Value (Obj src)) =
                Inr (Store_update f s' \<lparr> path = n_path n, actions = Some am \<rparr>, n') \<and>
              Store_get s' (n_path n) = Inr (Obj r) \<and>
              (\<forall>k. map_of r k = merged_value cur src k) \<and>
              (\<forall>k. map_of am k = merged_action cur src k) \<and>
              distinct (map fst am) \<and>
              s_edition s' = s_edition s + 1 \<and>
              s_edition (Store_update f s' \<lparr> path = n_path n, actions = Some am \<rparr>) =
                s_edition s + 1 \<and>
              new_events s s' = map (\<lambda>cb. OnSet cb arg) (s_setSubscribers s) \<and>
              arg_value arg = Some (Obj r) \<and> arg_merged arg = Obj src \<and>
              (cur = [(''a'', Num 1), (''b'', Num 2)] \<and>
               src = [(''a'', Num 5), (''b'', NoneSym)] \<longrightarrow>
                 r = [(''a'', Num 5)] \<and> am = [(''a'', Upd), (''b'', Del)])))"
    (is "(_ \<longrightarrow> ?A) \<and> (_ \<longrightarrow> ?B)")
proof -
  obtain n1 where n1: "getUntracked s n False = Inr (n1, Obj cur)" and p1: "n_path n1 = n_path n"
    using getUntracked_in_sync [OF g _ sync] by auto
  have a: ?A if empty: "src = []"
  proof -
    have "mergeUntrackedV4 s n (Value (Obj src)) = Inr (s, n1, None)"
      using n1 empty by (simp add: mergeUntrackedV4_def merge_finish_def)
    then show ?thesis by (simp add: node_merge_def)
  qed
  have b: ?B if ne: "src \<noteq> []"
  proof -
    obtain r am where mk: "merge_keys (Obj src) (map fst src) (Obj cur, []) = Inr (Obj r, am)"
      and rv: "\<forall>k. map_of r k = merged_value cur src k"
      and ra: "\<forall>k. map_of am k = merged_action cur src k"
      and ad: "distinct (map fst am)" and am: "am \<noteq> []"
      using merge_keys_all [OF d pr, of cur] ne by blast
    let ?s1 = "s\<lparr> s_value := replace_at (s_value s) (n_path n1) (Obj r) \<rparr>"
    let ?n2 = "set_valueUsed (map_option (\<lambda>u. Obj r) (valueUsed n1)) (set_valueSource (Obj r) n1)"
    let ?ad = "\<lparr> path = n_path n, actions = None \<rparr>"
    have p2: "n_path ?n2 = n_path n" using p1 by (simp add: node_setters)
    have w: "walk (s_value s) (n_path n) = Inr (Obj cur)"
      using g by (auto simp: Store_get_def split: if_splits)
    have w1: "walk (s_value ?s1) (path ?ad) = Inr (Obj r)"
      using walk_replace_at [OF w, of "Obj r"] p1 by simp
    have ex: "\<exists>s' ad'. Store_set ?s1 ?ad (Obj r) (Obj src) = Inr (s', ad')"
    proof (cases "n_path n = []")
      case True
      then show ?thesis
        using e np by (simp add: Store_set_def set_root_def Let_def pending_with_source_def
              split: option.splits)
    next
      case False
      then show ?thesis
        using Store_set_over_container [of ?s1 "n_path n" "Obj r" "Obj r" "Obj src"] w1 e by simp
    qed
    then obtain s' ad' where s': "Store_set ?s1 ?ad (Obj r) (Obj src) = Inr (s', ad')" by blast
    have raw: "Store_get s' (n_path n) = Inr (Obj r) \<and> s_edition s' = s_edition s + 1"
      using written_container_read_back [OF s' _ w1] by simp
    obtain arg where
      arg: "s_trace s' = s_trace ?s1 @ map (\<lambda>cb. OnSet cb arg) (s_setSubscribers ?s1)"
        "arg_value arg = Some (Obj r)" "arg_merged arg = Obj src"
      using written_container_trace [OF s' _ w1] by auto
    have ev: "new_events s s' = map (\<lambda>cb. OnSet cb arg) (s_setSubscribers s)"
      using arg(1) by (simp add: new_events_def)
    have m: "mergeUntrackedV4 s n (Value (Obj src)) =
          Inr (s', ?n2, Some \<lparr> path = n_path n, actions = Some am \<rparr>)"
      using n1 s' p1 p2 am mk
      by (simp add: mergeUntrackedV4_def merge_finish_def setUntrackedV4_def
            del: merge_keys.simps)
    then have nm: "node_merge f s n (Value (Obj src)) =
          Inr (Store_update f s' \<lparr> path = n_path n, actions = Some am \<rparr>, ?n2)"
      by (simp add: node_merge_def)
    have ex2: "r = [(''a'', Num 5)] \<and> am = [(''a'', Upd), (''b'', Del)]"
      if "cur = [(''a'', Num 1), (''b'', Num 2)]" "src = [(''a'', Num 5), (''b'', NoneSym)]"
      using mk that merge_example_keys by (simp del: merge_keys.simps)
    show ?thesis
      using m nm raw rv ra ad ev arg(2,3) ex2
      by (intro exI [of _ s'] exI [of _ ?n2] exI [of _ r] exI [of _ am] exI [of _ arg]) simp
  qed
  show ?thesis using a b by blast
qed

text \<open>A merge that updates, deletes and inserts.\<close>

lemma merge_three_keys:
  "returned_descriptor
     (mergeUntrackedV4 (Store_new (Obj [(''a'', Num 1), (''b'', Num 2)]) :: unit Store)
        (Node [] Undefined (- 1) 7 True None False None False None)
        (Value (Obj [(''a'', Num 5), (''b'', NoneSym), (''c'', Num 9)]))) =
     Some \<lparr> path = [], actions = Some [(''a'', Upd), (''b'', Del), (''c'', Ins)] \<rparr> \<and>
   Store_get
     (fst (projr (node_merge no_subscriber
        (Store_new (Obj [(''a'', Num 1), (''b'', Num 2)]) :: unit Store)
        (Node [] Undefined (- 1) 7 True None False None False None)
        (Value (Obj [(''a'', Num 5), (''b'', NoneSym), (''c'', Num 9)]))))) [] =
     Inr (Obj [(''a'', Num 5), (''c'', Num 9)])"
  by code_simp

theorem merge_object_witness:
  "Store_get (Store_new (Obj [(''a'', Num 1), (''b'', Num 2)]) :: unit Store) [] =
     Inr (Obj [(''a'', Num 1), (''b'', Num 2)]) \<and>
   valueEdition (Node [] Undefined (- 1) 7 True None False None False None) \<noteq>
     s_edition (Store_new (Obj [(''a'', Num 1), (''b'', Num 2)]) :: unit Store) \<and>
   0 \<le> s_edition (Store_new (Obj [(''a'', Num 1), (''b'', Num 2)]) :: unit Store) \<and>
   \<not> pending_with_source (Store_new (Obj [(''a'', Num 1), (''b'', Num 2)]) :: unit Store) \<and>
   distinct (map fst [(''a'', Num 5), (''b'', NoneSym), (''c'', Num 9)]) \<and>
   ''__proto__'' \<notin> fst ` set [(''a'', Num 5), (''b'', NoneSym), (''c'', Num 9)] \<and>
   merged_action [(''a'', Num 1), (''b'', Num 2)]
     [(''a'', Num 5), (''b'', NoneSym), (''c'', Num 9)] ''c'' = Some Ins \<and>
   returned_descriptor
     (mergeUntrackedV4 (Store_new (Obj [(''a'', Num 1), (''b'', Num 2)]) :: unit Store)
        (Node [] Undefined (- 1) 7 True None False None False None)
        (Value (Obj [(''a'', Num 5), (''b'', NoneSym), (''c'', Num 9)]))) =
     Some \<lparr> path = [], actions = Some [(''a'', Upd), (''b'', Del), (''c'', Ins)] \<rparr> \<and>
   Store_get
     (fst (projr (node_merge no_subscriber
        (Store_new (Obj [(''a'', Num 1), (''b'', Num 2)]) :: unit Store)
        (Node [] Undefined (- 1) 7 True None False None False None)
        (Value (Obj [(''a'', Num 5), (''b'', NoneSym), (''c'', Num 9)]))))) [] =
     Inr (Obj [(''a'', Num 5), (''c'', Num 9)])"
proof -
  let ?s = "Store_new (Obj [(''a'', Num 1), (''b'', Num 2)]) :: unit Store"
  let ?n = "Node [] Undefined (- 1) 7 True None False None False None"
  let ?src = "[(''a'', Num 5), (''b'', NoneSym), (''c'', Num 9)]"
  have g: "Store_get ?s (n_path ?n) = Inr (Obj [(''a'', Num 1), (''b'', Num 2)])"
    by (simp add: store_defs)
  have sync: "valueEdition ?n = s_edition ?s \<longrightarrow>
              valueSource ?n = Obj [(''a'', Num 1), (''b'', Num 2)]"
    by (simp add: store_defs)
  have e: "0 \<le> s_edition ?s" by (simp add: store_defs)
  have np: "\<not> pending_with_source ?s" by (simp add: pending_with_source_def store_defs)
  have ne: "valueEdition ?n \<noteq> s_edition ?s" by (simp add: store_defs)
  have d: "distinct (map fst ?src)" by simp
  have pr: "''__proto__'' \<notin> fst ` set ?src" by simp
  have ma: "merged_action [(''a'', Num 1), (''b'', Num 2)] ?src ''c'' = Some Ins"
    by (simp add: merged_action_def obj_in_def obj_has_def object_prototype_names_def)
  show ?thesis
    using merge_object [OF g sync e np d pr, of no_subscriber] g np ne e ma merge_three_keys
    by simp
qed

text \<open>The claim as stated fails for a source without keys: \<open>merge({})\<close> on
  \<open>{a: 1, b: 2}\<close> records no action, so it makes no write and returns no
  descriptor, and the edition stays 0.\<close>

theorem merge_empty_counterexample:
  "returned_descriptor
     (mergeUntrackedV4 (Store_new (Obj [(''a'', Num 1), (''b'', Num 2)]) :: unit Store)
        (Node [] Undefined (- 1) 7 True None False None False None) (Value (Obj []))) = None \<and>
   node_merge no_subscriber (Store_new (Obj [(''a'', Num 1), (''b'', Num 2)]))
     (Node [] Undefined (- 1) 7 True None False None False None) (Value (Obj [])) =
     Inr (Store_new (Obj [(''a'', Num 1), (''b'', Num 2)]),
          Node [] (Obj [(''a'', Num 1), (''b'', Num 2)]) 0 7 True None False None False None) \<and>
   s_edition (Store_new (Obj [(''a'', Num 1), (''b'', Num 2)]) :: unit Store) = 0"
  by (simp add: returned_descriptor_def node_merge_def mergeUntrackedV4_def merge_finish_def
        getUntracked_def refresh_def set_valueEdition_def set_valueSource_def store_defs)

section \<open>Deleting from an array and the children cache\<close>

text \<open>
  C5 says that a node with an array value that is told of deletions drops
  every cached child from the smallest deleted index on. \<open>onSet\<close> does not:
  \<open>firstDeletedIndex\<close> is found after the default \<open>sort\<close>, which orders
  numbers as strings. For the array \<open>[0, ..., 11]\<close> with the children 5
  and 11 read, \<open>merge({2: none, 10: none})\<close> returns the action map
  \<open>{2: "D", 10: "D"}\<close>; on it \<open>firstDeletedIndex\<close> is 10, and the node
  keeps child 5 in its cache although index 2 was deleted.
\<close>

theorem onSet_keeps_child_after_smallest_deleted:
  "returned_descriptor
     (mergeUntrackedV4 (Store_new example_array :: unit Store) example_node
        (Value (Obj [(''2'', NoneSym), (''10'', NoneSym)]))) =
     Some \<lparr> path = [], actions = Some [(''2'', Del), (''10'', Del)] \<rparr> \<and>
   first_deleted [(''2'', Del), (''10'', Del)] = Some (Some 10) \<and>
   cached_children example_node = [''5'', ''11''] \<and>
   cached_children
     (fst (onSet example_node
             \<lparr> path = [], actions = Some [(''2'', Del), (''10'', Del)] \<rparr> [])) = [''5'']"
  by code_simp

text \<open>Decimal numerals are read back by \<open>Number\<close>.\<close>

lemma digit_val_digit_char: "d < 10 \<Longrightarrow> digit_val (digit_char d) = Some d"
proof -
  assume "d < 10"
  then consider "d = 0" | "d = 1" | "d = 2" | "d = 3" | "d = 4" | "d = 5" | "d = 6"
    | "d = 7" | "d = 8" | "d = 9"
    by atomize_elim arith
  then show ?thesis
    by cases (simp_all add: digit_val_def digit_char_def)
qed

lemma parse_digits_append:
  "parse_digits acc (xs @ ys) =
     (case parse_digits acc xs of None \<Rightarrow> None | Some a \<Rightarrow> parse_digits a ys)"
  by (induction xs arbitrary: acc) (auto split: option.splits)

lemma parse_digits_dec: "parse_digits 0 (dec n) = Some n"
proof (induction n rule: dec.induct)
  case (1 n)
  show ?case
  proof (cases "n < 10")
    case True
    then show ?thesis by (simp add: dec.simps [of n] digit_val_digit_char)
  next
    case False
    then have "parse_digits 0 (dec (n div 10)) = Some (n div 10)" using 1 by simp
    then show ?thesis
      using False by (simp add: dec.simps [of n] parse_digits_append digit_val_digit_char)
  qed
qed

lemma dec_nonempty: "dec n \<noteq> []"
  by (simp add: dec.simps [of n])

lemma to_number_dec: "to_number (dec n) = Some n"
  by (simp add: to_number_def dec_nonempty parse_digits_dec)

lemma to_number_SomeD: "to_number s = Some n \<Longrightarrow> dec n = s"
  by (auto simp: to_number_def split: if_splits option.splits)

lemma dec_inj: "dec m = dec n \<Longrightarrow> m = n"
  using to_number_dec by (metis option.inject)

lemma dec_not_NaN: "dec n \<noteq> ''NaN''"
proof
  assume "dec n = ''NaN''"
  then have "parse_digits 0 ''NaN'' = Some n" using parse_digits_dec [of n] by simp
  then show False by (simp add: digit_val_def)
qed

lemma set_sort_insert: "set (sort_insert g x ys) = insert x (set ys)"
  by (induction ys) auto

lemma set_js_sort: "set (js_sort g xs) = set xs"
  by (induction xs) (auto simp: js_sort_def set_sort_insert)

lemma first_deleted_single:
  assumes single: "\<And>k. map_of am k = Some Del \<longleftrightarrow> k = dec d"
  shows "first_deleted am = Some (Some d)"
proof -
  let ?L = "js_sort number_string (map to_number (map fst am))"
  let ?P = "\<lambda>i. map_of am (number_string i) = Some Del"
  have P: "?P i \<longleftrightarrow> i = Some d" for i
  proof (cases i)
    case None
    then show ?thesis using single [of "''NaN''"] dec_not_NaN [of d] by auto
  next
    case (Some n)
    then show ?thesis using single [of "dec n"] dec_inj by auto
  qed
  have "map_of am (dec d) = Some Del" using single by blast
  then have "(dec d, Del) \<in> set am" by (rule map_of_SomeD)
  then have "to_number (fst (dec d, Del)) \<in> (\<lambda>x. to_number (fst x)) ` set am"
    by (rule imageI)
  then have "to_number (dec d) \<in> set ?L" by (simp add: set_js_sort image_image)
  then have "Some d \<in> set ?L" by (simp add: to_number_dec)
  then have "find ?P ?L \<noteq> None" using P by (auto simp: find_None_iff)
  then obtain x where x: "find ?P ?L = Some x" by blast
  then have "?P x" by (auto simp: find_Some_iff)
  then have "x = Some d" using P by blast
  then show ?thesis using x by (simp add: first_deleted_def)
qed

text \<open>When exactly one key of the action map is tagged \<open>"D"\<close>, the index
  \<open>d\<close>, a node that was read and is the target of the descriptor drops the
  children from \<open>d\<close> on and the children named in the action map.\<close>

lemma onSet_single_delete:
  assumes used: "vu \<noteq> None" and target: "length (path ad) \<le> length p"
      and am: "actions ad = Some am" and arr: "isArray vs"
      and single: "\<And>k. map_of am k = Some Del \<longleftrightarrow> k = dec d"
  shows "childrenUsed (fst (onSet (Node p vs ve cb mounted subs dg (Some c) su vu) ad acts)) =
         Some (filter (\<lambda>ch. \<not> ((case to_number (fst ch) of None \<Rightarrow> False | Some i \<Rightarrow> d \<le> i) \<or>
                                  obj_in am (fst ch))) c)"
proof -
  have "map_of am (dec d) = Some Del" using single by blast
  then have "(dec d, Del) \<in> set am" by (rule map_of_SomeD)
  then have del: "Del \<in> set (map snd am)" by force
  have ge: "number_ge x (Some (Some d)) = (case x of None \<Rightarrow> False | Some i \<Rightarrow> d \<le> i)" for x
    by (cases x) auto
  have "prune_children vs am c =
        filter (\<lambda>ch. \<not> ((case to_number (fst ch) of None \<Rightarrow> False | Some i \<Rightarrow> d \<le> i) \<or>
                                  obj_in am (fst ch))) c"
    using arr del by (simp add: prune_children_def first_deleted_single [OF single] ge)
  then show ?thesis
    using used target am by (simp add: next_child_key_def Let_def)
qed

text \<open>With the single deletion of index 2 the cache of the example is
  emptied.\<close>

lemma onSet_single_delete_example:
  "cached_children
     (fst (onSet example_node \<lparr> path = [], actions = Some [(''2'', Del)] \<rparr> [])) = []"
  by code_simp


section \<open>Setting a primitive to the value it has\<close>

text \<open>
  C8, as the code has it. When the new value is a primitive other than
  \<open>NaN\<close> and is the value
  the store holds at the path of the node, \<open>set\<close> returns without a write
  and without \<open>Store.update\<close>: \<open>setUntrackedV4\<close> returns \<open>null\<close> and
  the store is the same afterwards, so its edition is unchanged, no subscriber
  was notified and no callback called. The cache of the node is stale or holds
  the store's value.
\<close>

theorem set_same_primitive_noop:
  assumes g: "Store_get s (n_path n) = Inr currentValue"
      and sync: "valueEdition n = s_edition s \<longrightarrow> valueSource n = currentValue"
      and o: "\<not> is_object v" and eq: "v = currentValue" and nan: "v \<noteq> NaN"
  shows "\<exists>n'. setUntrackedV4 s n (Value v) m = Inr (s, n', None) \<and>
              node_set f s n (Value v) = Inr (s, n')"
proof -
  obtain n' where "getUntracked s n True = Inr (n', currentValue)"
    using getUntracked_in_sync [OF g _ sync, of True] by auto
  then have n': "getUntracked s n True = Inr (n', v)" using eq by simp
  have "setUntrackedV4 s n (Value v) m' = Inr (s, n', None)" for m'
    using n' o nan
    by (cases v) (simp_all add: setUntrackedV4_def strict_eq_def)
  then show ?thesis by (auto simp: node_set_def)
qed

theorem set_same_primitive_noop_witness:
  "Store_get (Store_new (Obj [(''x'', Num 3)]) :: unit Store)
     (n_path (Node [KStr ''x''] Undefined (- 1) 7 True None False None False None)) =
     Inr (Num 3) \<and>
   valueEdition (Node [KStr ''x''] Undefined (- 1) 7 True None False None False None) \<noteq>
     s_edition (Store_new (Obj [(''x'', Num 3)]) :: unit Store) \<and>
   \<not> is_object (Num 3) \<and> Num 3 \<noteq> NaN \<and>
   node_set no_subscriber (Store_new (Obj [(''x'', Num 3)]))
     (Node [KStr ''x''] Undefined (- 1) 7 True None False None False None) (Value (Num 3)) =
     Inr (Store_new (Obj [(''x'', Num 3)]),
          Node [KStr ''x''] (Num 3) 0 7 True None False None False None)"
proof -
  let ?s = "Store_new (Obj [(''x'', Num 3)]) :: unit Store"
  let ?n = "Node [KStr ''x''] Undefined (- 1) 7 True None False None False None"
  let ?n1 = "Node [KStr ''x''] (Num 3) 0 7 True None False None False None"
  have g: "Store_get ?s (n_path ?n) = Inr (Num 3)" by (simp add: store_defs)
  have ne: "valueEdition ?n \<noteq> s_edition ?s" by (simp add: store_defs)
  then have sync: "valueEdition ?n = s_edition ?s \<longrightarrow> valueSource ?n = Num 3" by simp
  have o: "\<not> is_object (Num 3)" by simp
  have u: "getUntracked ?s ?n True = Inr (?n1, Num 3)"
    by (simp add: getUntracked_def refresh_def set_valueEdition_def set_valueSource_def
          store_defs)
  have r: "node_set no_subscriber ?s ?n (Value (Num 3)) = Inr (?s, ?n1)"
    using u by (simp add: node_set_def setUntrackedV4_def strict_eq_def)
  show ?thesis
    using set_same_primitive_noop [OF g sync o, of Undefined no_subscriber] g ne r
    by simp
qed

text \<open>The claim as stated fails for \<open>NaN\<close>, which \<open>===\<close> does not
  hold equal to itself: setting a leaf that holds \<open>NaN\<close> to \<open>NaN\<close> is
  written and raises the edition.\<close>

theorem set_same_primitive_counterexample:
  "Store_get (Store_new (Obj [(''x'', NaN)]) :: unit Store) [KStr ''x''] = Inr NaN \<and>
   \<not> is_object NaN \<and>
   node_set no_subscriber (Store_new (Obj [(''x'', NaN)]))
     (Node [KStr ''x''] Undefined (- 1) 7 True None False None False None) (Value NaN) =
   Inr ((Store_new (Obj [(''x'', NaN)]))\<lparr> s_edition := 1 \<rparr>,
        Node [KStr ''x''] NaN 0 7 True None False None False None)"
  by (simp add: node_set_def setUntrackedV4_def getUntracked_def refresh_def strict_eq_def
        set_valueEdition_def set_valueSource_def Store_update_def fan_out_def no_subscriber_def
        store_defs)

section \<open>Destroy\<close>

lemma Store_set_destroyed:
  "s_edition s = DestroyedEdition \<Longrightarrow>
   Store_set s ad v m = Inl (StateInvalidUsageError (path ad) SetStateWhenDestroyed)"
  by (simp add: Store_set_def DestroyedEdition_def)

lemma step_destroyed:
  "s_edition s = DestroyedEdition \<Longrightarrow> s_edition (step f s x) = DestroyedEdition"
  by (cases x)
     (auto simp: Store_set_destroyed promise_then_def promise_catch_def Store_destroy_def Let_def
        split: option.splits)

lemma run_destroyed:
  "s_edition s = DestroyedEdition \<Longrightarrow> s_edition (run f s xs) = DestroyedEdition"
  by (induction xs arbitrary: s) (auto simp: step_destroyed)

lemma count_list_distinct:
  "distinct xs \<Longrightarrow> x \<in> set xs \<Longrightarrow> count_list xs x = 1"
  by (induction xs) auto

text \<open>The sets of callbacks stay sets under \<open>register\<close>.\<close>

lemma set_add_distinct: "distinct xs \<Longrightarrow> distinct (set_add x xs)"
  by (simp add: set_add_def)

lemma register_distinct:
  "distinct (s_destroySubscribers s) \<Longrightarrow>
   distinct (s_destroySubscribers (register s pl))"
  by (simp add: register_def set_add_distinct)

text \<open>Calls of destroy callbacks in a trace.\<close>

lemma destroy_calls_append [simp]:
  "destroy_calls cb (xs @ ys) = destroy_calls cb xs + destroy_calls cb ys"
  by (simp add: destroy_calls_def)

lemma destroy_calls_Nil [simp]: "destroy_calls cb [] = 0"
  by (simp add: destroy_calls_def)

lemma destroy_calls_Cons:
  "destroy_calls cb (e # evs) = (if is_destroy_call cb e then 1 else 0) + destroy_calls cb evs"
  by (simp add: destroy_calls_def)

lemma destroy_calls_OnSet [simp]: "destroy_calls cb (map (\<lambda>c. OnSet c a) xs) = 0"
  by (induction xs) (auto simp: destroy_calls_Cons)

lemma destroy_calls_Rerender [simp]: "destroy_calls cb (map Rerender xs) = 0"
  by (induction xs) (auto simp: destroy_calls_Cons)

lemma destroy_calls_Notify [simp]: "destroy_calls cb (map (\<lambda>i. Notify i ad) xs) = 0"
  by (induction xs) (auto simp: destroy_calls_Cons)

lemma destroy_calls_OnDestroy [simp]:
  "destroy_calls cb (map (\<lambda>c. OnDestroy c a) xs) = count_list xs cb"
  by (induction xs) (auto simp: destroy_calls_Cons)

lemma destroy_calls_concat_Notify [simp]:
  "destroy_calls cb (concat (map (\<lambda>k. map (\<lambda>i. Notify i (g k)) xs) ks)) = 0"
  by (induction ks) auto

lemma destroy_calls_notifications [simp]: "destroy_calls cb (notifications n ad) = 0"
  by (simp add: notifications_def)

lemma quiet_refl [simp]: "quiet s s"
  by (simp add: quiet_def)

lemma quiet_trans: "quiet s s1 \<Longrightarrow> quiet s1 s2 \<Longrightarrow> quiet s s2"
  by (auto simp: quiet_def)

lemma quiet_promised [simp]: "quiet s (s\<lparr> s_promised := x \<rparr>)"
  by (simp add: quiet_def)

lemma Store_update_quiet: "quiet s (Store_update f s ad)"
proof -
  obtain ss' where "fan_out f (s_subscribers s) ad =
     (ss', fold set_add (added_all f (s_subscribers s) ad) [],
      notifications (length (s_subscribers s)) ad)"
    using fan_out_eq by blast
  then show ?thesis by (simp add: Store_update_def quiet_def)
qed

lemma set_root_quiet: "set_root s ad v m = Inr (s', ad') \<Longrightarrow> quiet s s'"
  by (auto simp: set_root_def Let_def quiet_def install_promised_def afterSet_def
        destroy_calls_Cons split: if_splits option.splits)

lemma set_nested_quiet: "set_nested s ad v m = Inr (s', ad') \<Longrightarrow> quiet s s'"
  by (auto simp: set_nested_def Let_def quiet_def afterSet_def
        split: sum.splits bool.splits if_splits)

lemma Store_set_quiet: "Store_set s ad v m = Inr (s', ad') \<Longrightarrow> quiet s s'"
  by (auto simp: Store_set_def set_root_quiet set_nested_quiet split: if_splits)

lemma promise_then_quiet: "quiet s (promise_then f s i r)"
proof (cases "s_promised s")
  case None
  then show ?thesis by (simp add: promise_then_def)
next
  case (Some pr)
  let ?s1 = "s\<lparr> s_promised := Some (pr\<lparr> fullfilled := True \<rparr>) \<rparr>"
  let ?s2 = "?s1\<lparr> s_promised := None \<rparr>"
  have q2: "quiet s ?s2" by (simp add: quiet_def)
  show ?thesis
  proof (cases "Store_set ?s2 \<lparr> path = RootPath, actions = None \<rparr> r Undefined")
    case (Inl e)
    then show ?thesis using Some q2 by (simp add: promise_then_def Let_def)
  next
    case (Inr x)
    obtain s3 ad where x: "x = (s3, ad)" by (cases x)
    have "quiet ?s2 s3" using Inr x Store_set_quiet by blast
    then have "quiet s (Store_update f s3 ad)"
      using q2 Store_update_quiet quiet_trans by blast
    then show ?thesis using Some Inr x q2 by (simp add: promise_then_def Let_def)
  qed
qed

lemma promise_catch_quiet: "quiet s (promise_catch f s i err)"
proof (cases "s_promised s")
  case None
  then show ?thesis by (simp add: promise_catch_def)
next
  case (Some pr)
  let ?s1 = "s\<lparr> s_promised := Some (pr\<lparr> fullfilled := True, p_error := Some err \<rparr>) \<rparr>"
  have "quiet s (?s1\<lparr> s_edition := s_edition ?s1 + 1 \<rparr>)" by (simp add: quiet_def)
  then have "quiet s (Store_update f (?s1\<lparr> s_edition := s_edition ?s1 + 1 \<rparr>)
                        \<lparr> path = RootPath, actions = None \<rparr>)"
    using Store_update_quiet quiet_trans by blast
  then show ?thesis using Some by (simp add: promise_catch_def Let_def)
qed

lemma step_quiet: "x \<noteq> OpDestroy \<Longrightarrow> quiet s (step f s x)"
proof (cases x)
  case (OpSet ad v m)
  show ?thesis
  proof (cases "Store_set s ad v m")
    case (Inl e)
    then show ?thesis using OpSet by simp
  next
    case (Inr r)
    obtain s' ad' where r: "r = (s', ad')" by (cases r)
    have "quiet s s'" using Inr r Store_set_quiet by blast
    then have "quiet s (Store_update f s' ad')"
      using Store_update_quiet quiet_trans by blast
    then show ?thesis using OpSet Inr r by simp
  qed
qed (simp_all add: promise_then_quiet promise_catch_quiet)

text \<open>Over a run, a destroy callback is called once for every \<open>destroy\<close>
  and by nothing else.\<close>

lemma run_destroy_calls:
  "\<exists>evs. s_trace (run f s xs) = s_trace s @ evs \<and>
         destroy_calls cb evs = count_list xs OpDestroy * count_list (s_destroySubscribers s) cb \<and>
         s_destroySubscribers (run f s xs) = s_destroySubscribers s"
proof (induction xs arbitrary: s)
  case Nil
  then show ?case by simp
next
  case (Cons x xs)
  obtain evs where evs: "s_trace (run f (step f s x) xs) = s_trace (step f s x) @ evs"
    "destroy_calls cb evs =
       count_list xs OpDestroy * count_list (s_destroySubscribers (step f s x)) cb"
    "s_destroySubscribers (run f (step f s x) xs) = s_destroySubscribers (step f s x)"
    using Cons.IH by blast
  show ?case
  proof (cases "x = OpDestroy")
    case True
    then show ?thesis using evs by (simp add: Store_destroy_def)
  next
    case False
    then have "quiet s (step f s x)" by (rule step_quiet)
    then obtain evs0 where "s_trace (step f s x) = s_trace s @ evs0"
      "destroy_calls cb evs0 = 0" "s_destroySubscribers (step f s x) = s_destroySubscribers s"
      by (auto simp: quiet_def)
    then show ?thesis using evs False by simp
  qed
qed

text \<open>
  C9, as the code has it. After \<open>destroy\<close>, whatever operations
  follow, every write fails with
  \<open>SetStateWhenDestroyed\<close>. One call of \<open>destroy\<close> calls the registered
  destroy callbacks in order, with the root value, or with no value when the
  root is \<open>none\<close>. Over any sequence of operations every registered destroy
  callback is called as many times as \<open>destroy\<close> is: once for each call of
  \<open>destroy\<close>, and never by another operation.
\<close>

theorem destroy_terminal:
  "Store_set (run f (Store_destroy s) xs) ad v m =
     Inl (StateInvalidUsageError (path ad) SetStateWhenDestroyed) \<and>
   s_trace (Store_destroy s) =
     s_trace s @
     map (\<lambda>cb. OnDestroy cb (if s_value s = NoneSym then None else Some (s_value s)))
       (s_destroySubscribers s) \<and>
   (distinct (s_destroySubscribers s) \<longrightarrow>
      (\<forall>cb \<in> set (s_destroySubscribers s).
         destroy_calls cb (new_events s (run f s xs)) = count_list xs OpDestroy))"
proof -
  have "s_edition (Store_destroy s) = DestroyedEdition"
    by (simp add: Store_destroy_def)
  then have a: "Store_set (run f (Store_destroy s) xs) ad v m =
     Inl (StateInvalidUsageError (path ad) SetStateWhenDestroyed)"
    by (intro Store_set_destroyed run_destroyed)
  have b: "s_trace (Store_destroy s) =
     s_trace s @
     map (\<lambda>cb. OnDestroy cb (if s_value s = NoneSym then None else Some (s_value s)))
       (s_destroySubscribers s)"
    by (simp add: Store_destroy_def)
  have c: "destroy_calls cb (new_events s (run f s xs)) = count_list xs OpDestroy"
    if d: "distinct (s_destroySubscribers s)" and m: "cb \<in> set (s_destroySubscribers s)" for cb
  proof -
    obtain evs where evs: "s_trace (run f s xs) = s_trace s @ evs"
      "destroy_calls cb evs = count_list xs OpDestroy * count_list (s_destroySubscribers s) cb"
      using run_destroy_calls by blast
    have "count_list (s_destroySubscribers s) cb = 1"
      using d m by (rule count_list_distinct)
    then show ?thesis using evs by (simp add: new_events_def)
  qed
  show ?thesis using a b c by blast
qed

theorem destroy_terminal_witness:
  "distinct (s_destroySubscribers
      (register (Store_new (Num 4) :: unit Store)
              \<lparr> plugin_id = 8, has_onSet = False, has_onDestroy = True \<rparr>)) \<and>
   8 \<in> set (s_destroySubscribers
      (register (Store_new (Num 4) :: unit Store)
              \<lparr> plugin_id = 8, has_onSet = False, has_onDestroy = True \<rparr>)) \<and>
   destroy_calls 8 (new_events
      (register (Store_new (Num 4) :: unit Store)
              \<lparr> plugin_id = 8, has_onSet = False, has_onDestroy = True \<rparr>)
      (run no_subscriber
         (register (Store_new (Num 4) :: unit Store)
              \<lparr> plugin_id = 8, has_onSet = False, has_onDestroy = True \<rparr>)
         [OpSet \<lparr> path = [], actions = None \<rparr> (Num 5) Undefined, OpDestroy])) = 1 \<and>
   s_trace (Store_destroy
      (register (Store_new (Num 4) :: unit Store)
              \<lparr> plugin_id = 8, has_onSet = False, has_onDestroy = True \<rparr>)) =
     [OnDestroy 8 (Some (Num 4))] \<and>
   Store_set (run no_subscriber (Store_destroy
      (register (Store_new (Num 4) :: unit Store)
              \<lparr> plugin_id = 8, has_onSet = False, has_onDestroy = True \<rparr>))
      [OpSet \<lparr> path = [], actions = None \<rparr> (Num 5) Undefined, OpDestroy])
      \<lparr> path = [], actions = None \<rparr> (Num 5) Undefined =
     Inl (StateInvalidUsageError [] SetStateWhenDestroyed)"
proof -
  let ?s = "register (Store_new (Num 4) :: unit Store)
              \<lparr> plugin_id = 8, has_onSet = False, has_onDestroy = True \<rparr>"
  have d: "s_destroySubscribers ?s = [8]" "s_trace ?s = []" "s_value ?s = Num 4"
    by (simp_all add: register_def set_add_def store_defs)
  show ?thesis
    using destroy_terminal [of no_subscriber ?s
            "[OpSet \<lparr> path = [], actions = None \<rparr> (Num 5) Undefined, OpDestroy]"
            "\<lparr> path = [], actions = None \<rparr>" "Num 5" Undefined] d
    by simp
qed

text \<open>The claim as stated fails when \<open>destroy\<close> is called again:
  it has no guard, and the second call on the destroyed store calls the callback
  a second time.\<close>

theorem destroy_twice_counterexample:
  "s_trace (run no_subscriber
      (register (Store_new (Num 4) :: unit Store)
              \<lparr> plugin_id = 8, has_onSet = False, has_onDestroy = True \<rparr>)
      [OpDestroy, OpDestroy]) =
     [OnDestroy 8 (Some (Num 4)), OnDestroy 8 (Some (Num 4))] \<and>
   destroy_calls 8 (new_events
      (Store_destroy (register (Store_new (Num 4) :: unit Store)
              \<lparr> plugin_id = 8, has_onSet = False, has_onDestroy = True \<rparr>))
      (run no_subscriber
         (Store_destroy (register (Store_new (Num 4) :: unit Store)
              \<lparr> plugin_id = 8, has_onSet = False, has_onDestroy = True \<rparr>))
         [OpDestroy])) = 1"
  by (simp add: register_def set_add_def store_defs Store_destroy_def new_events_def
        destroy_calls_def)

end
